theory Spec2Isabelle
  imports Main "HOL-Library.Sublist" "HOL-Library.AList"
begin

section \<open>Python strings\<close>

text \<open>
  A Python \<open>str\<close> is modelled as a \<open>string\<close>, the list of its characters, a
  character being a code point below 256. The helpers below are the \<open>str\<close> methods that
  \<open>YML.py\<close> calls, each written out on lists.
\<close>

definition startswith :: "string \<Rightarrow> string \<Rightarrow> bool" where
  "startswith s p = prefix p s"

definition endswith :: "string \<Rightarrow> string \<Rightarrow> bool" where
  "endswith s p = suffix p s"

text \<open>
  \<open>s[i:-j]\<close> for literal \<open>i\<close> and \<open>j > 0\<close>: the stop index \<open>len(s) - j\<close> is clamped at 0,
  which is what truncating subtraction on \<open>nat\<close> computes.
\<close>

definition slice :: "nat \<Rightarrow> nat \<Rightarrow> string \<Rightarrow> string" where
  "slice i j s = drop i (take (length s - j) s)"

text \<open>
  The characters that \<open>str.strip()\<close> removes: those for which \<open>str.isspace\<close> holds,
  among the code points below 256.
\<close>

definition isspace :: "char \<Rightarrow> bool" where
  "isspace c = (c \<in> set [CHR 0x09, CHR 0x0A, CHR 0x0B, CHR 0x0C, CHR 0x0D,
                           CHR 0x1C, CHR 0x1D, CHR 0x1E, CHR 0x1F, CHR '' '',
                           CHR 0x85, CHR 0xA0])"

definition strip :: "string \<Rightarrow> string" where
  "strip s = rev (dropWhile isspace (rev (dropWhile isspace s)))"

text \<open>\<open>s.strip('_')\<close>.\<close>

definition strip_underscores :: "string \<Rightarrow> string" where
  "strip_underscores s =
     rev (dropWhile (\<lambda>c. c = CHR ''_'') (rev (dropWhile (\<lambda>c. c = CHR ''_'') s)))"

text \<open>\<open>s.split(':')[-1]\<close>: what follows the last colon (all of \<open>s\<close> when there is none).\<close>

definition last_field :: "string \<Rightarrow> string" where
  "last_field s = rev (takeWhile (\<lambda>c. c \<noteq> CHR '':'') (rev s))"

section \<open>YAMLAnalyzer.extract_image_tag\<close>

definition extract_image_tag :: "string \<Rightarrow> string" where
  "extract_image_tag image_string =
     (if image_string = [] then []
      else let s = strip image_string in
        if CHR '':'' \<in> set s then
          (let tag = last_field s in
             if startswith tag ''${'' \<and> endswith tag ''}'' then slice 2 1 tag
             else if startswith tag ''${{'' \<and> endswith tag ''}}'' then slice 3 2 tag
             else tag)
        else s)"

section \<open>GitLabAPIClient.make_request\<close>

text \<open>
  A \<open>requests.Response\<close>, reduced to what the client reads: the status code, the decoded
  JSON body and whether the \<open>links\<close> of the response have a \<open>next\<close> entry.
\<close>

record 'j response =
  status_code :: int
  json :: 'j
  links_next :: bool

text \<open>
  The truth value of a response object. \<open>requests.Response.__bool__\<close> returns \<open>self.ok\<close>,
  which is false exactly when \<open>raise_for_status\<close> raises, that is for a status code from
  400 up to 599. The client tests \<open>response and response.status_code == ...\<close>, so this
  truth value is part of both tests.
\<close>

definition response_truthy :: "'j response \<Rightarrow> bool" where
  "response_truthy r = (\<not> (400 \<le> status_code r \<and> status_code r < 600))"

text \<open>What one call of \<open>session.get\<close> / \<open>session.post\<close> does.\<close>

datatype 'j outcome =
    Returned "'j response"
  | Timeout
  | OtherException

definition max_retries :: nat where
  "max_retries = 3"

text \<open>
  The loop \<open>for attempt in range(self.max_retries)\<close>. \<open>send attempt\<close> is the outcome of
  the call made in iteration \<open>attempt\<close>; \<open>sleeps\<close> collects the arguments of
  \<open>time.sleep\<close> in order. The first argument counts the iterations left.
\<close>

fun make_request_loop ::
  "nat \<Rightarrow> (nat \<Rightarrow> 'j outcome) \<Rightarrow> nat \<Rightarrow> nat list \<Rightarrow> 'j response option \<times> nat list" where
  "make_request_loop 0 send attempt sleeps = (None, sleeps)"
| "make_request_loop (Suc left) send attempt sleeps =
     (case send attempt of
        Returned r \<Rightarrow>
          if response_truthy r \<and> status_code r = 200 then (Some r, sleeps)
          else if response_truthy r \<and> status_code r = 429 then
            make_request_loop left send (Suc attempt) (sleeps @ [2 ^ (attempt + 1)])
          else (None, sleeps)
      | Timeout \<Rightarrow> make_request_loop left send (Suc attempt) (sleeps @ [2 ^ attempt])
      | OtherException \<Rightarrow> (None, sleeps))"

definition make_request :: "(nat \<Rightarrow> 'j outcome) \<Rightarrow> 'j response option \<times> nat list" where
  "make_request send = make_request_loop max_retries send 0 []"

text \<open>A scripted server: the \<open>n\<close>-th call gets the \<open>n\<close>-th outcome of a list.\<close>

definition scripted :: "'j outcome list \<Rightarrow> nat \<Rightarrow> 'j outcome" where
  "scripted os n = (if n < length os then os ! n else OtherException)"

definition status_only :: "int \<Rightarrow> unit outcome" where
  "status_only c = Returned \<lparr>status_code = c, json = (), links_next = False\<rparr>"

section \<open>GitLabAPIClient.get_all_projects\<close>

text \<open>
  \<open>request page\<close> is the result of \<open>self.make_request(url, params)\<close> with
  \<open>params["page"] = page\<close>; the JSON body of a project listing is a list of projects.
  \<open>max_projects\<close> is the configured cap, an \<open>int\<close>; the source tests
  \<open>self.config.max_projects and ...\<close>, so a cap of 0 switches the cap off.
  The \<open>while True\<close> loop ends only through one of its \<open>break\<close>s, so it is a
  partial function: \<open>None\<close> stands for a loop that never ends.
\<close>

definition per_page :: nat where
  "per_page = 50"

text \<open>\<open>xs[:n]\<close>, also for a negative \<open>n\<close>.\<close>

definition upto_index :: "int \<Rightarrow> 'a list \<Rightarrow> 'a list" where
  "upto_index n xs = (if 0 \<le> n then take (nat n) xs else take (length xs - nat (- n)) xs)"

partial_function (option) get_all_projects_loop ::
  "(nat \<Rightarrow> 'p list response option) \<Rightarrow> int \<Rightarrow> 'p list \<Rightarrow> nat \<Rightarrow> 'p list option" where
  "get_all_projects_loop request max_projects all_projects page =
     (case request page of
        None \<Rightarrow> Some all_projects
      | Some response \<Rightarrow>
          if \<not> response_truthy response then Some all_projects
          else if json response = [] then Some all_projects
          else
            let all_projects = all_projects @ json response in
            if max_projects \<noteq> 0 \<and> max_projects \<le> int (length all_projects) then
              Some (upto_index max_projects all_projects)
            else if \<not> links_next response then Some all_projects
            else get_all_projects_loop request max_projects all_projects (page + 1))"

definition get_all_projects :: "(nat \<Rightarrow> 'p list response option) \<Rightarrow> int \<Rightarrow> 'p list option" where
  "get_all_projects request max_projects = get_all_projects_loop request max_projects [] 1"

text \<open>
  A simulated listing: the server holds \<open>items\<close>, serves them in pages of \<open>per_page\<close>
  (the \<open>per_page\<close> parameter of the request), always with status 200, and sets the
  \<open>next\<close> link while items remain after the page.
\<close>

definition paginated :: "'p list \<Rightarrow> nat \<Rightarrow> 'p list response option" where
  "paginated items page =
     Some \<lparr>status_code = 200,
           json = take per_page (drop (per_page * (page - 1)) items),
           links_next = (per_page * page < length items)\<rparr>"

section \<open>YAMLAnalyzer.normalize_service_name\<close>

text \<open>\<open>s.replace(old, new)\<close> for single characters.\<close>

definition replace_char :: "char \<Rightarrow> char \<Rightarrow> string \<Rightarrow> string" where
  "replace_char old new s = map (\<lambda>c. if c = old then new else c) s"

text \<open>
  \<open>re.sub(r'\[.*?\]', '', name)\<close>. At an opening bracket the pattern matches up to the
  first closing bracket, provided no line break comes before it (\<open>.\<close> does not match a
  line break); \<open>bracket_end\<close> returns what follows that match. The scan goes on after a
  match, and one character further where there is none.
\<close>

fun bracket_end :: "string \<Rightarrow> string option" where
  "bracket_end [] = None"
| "bracket_end (c # cs) =
     (if c = CHR '']'' then Some cs
      else if c = CHR 0x0A then None
      else bracket_end cs)"

lemma bracket_end_length [termination_simp]:
  "bracket_end cs = Some rest \<Longrightarrow> length rest < Suc (length cs)"
  by (induction cs) (auto split: if_splits)

fun remove_brackets :: "string \<Rightarrow> string" where
  "remove_brackets [] = []"
| "remove_brackets (c # cs) =
     (if c = CHR ''['' then
        (case bracket_end cs of
           Some rest \<Rightarrow> remove_brackets rest
         | None \<Rightarrow> c # remove_brackets cs)
      else c # remove_brackets cs)"

text \<open>\<open>re.sub(r'_+', '_', name)\<close>: every maximal run of underscores becomes one.\<close>

lemma dropWhile_length [termination_simp]:
  "length (dropWhile P xs) < Suc (length xs)"
  by (simp add: length_dropWhile_le le_imp_less_Suc)

fun collapse_underscores :: "string \<Rightarrow> string" where
  "collapse_underscores [] = []"
| "collapse_underscores (c # cs) =
     (if c = CHR ''_'' then c # collapse_underscores (dropWhile (\<lambda>x. x = CHR ''_'') cs)
      else c # collapse_underscores cs)"

definition normalize_service_name :: "string \<Rightarrow> string" where
  "normalize_service_name name =
     (if name = [] then []
      else
        let name = replace_char CHR ''.'' CHR ''_'' (replace_char CHR ''-'' CHR ''_'' name);
            name = (if startswith name ''services_'' then drop 9 name else name);
            name = remove_brackets name;
            name = collapse_underscores name
        in strip_underscores name)"

text \<open>
  The normal form of a name. \<open>bracketed s\<close>: some opening bracket of \<open>s\<close> is followed
  by a closing bracket on the same line, which are the pairs that the pattern of the
  normalizer matches. \<open>repeated_underscore s\<close>: two underscores are adjacent somewhere
  in \<open>s\<close>.
\<close>

fun bracketed :: "string \<Rightarrow> bool" where
  "bracketed [] = False"
| "bracketed (c # cs) =
     ((c = CHR ''['' \<and> CHR '']'' \<in> set (takeWhile (\<lambda>x. x \<noteq> CHR 0x0A) cs)) \<or> bracketed cs)"

fun repeated_underscore :: "string \<Rightarrow> bool" where
  "repeated_underscore (a # b # cs) =
     ((a = CHR ''_'' \<and> b = CHR ''_'') \<or> repeated_underscore (b # cs))"
| "repeated_underscore _ = False"

definition normalized :: "string \<Rightarrow> bool" where
  "normalized s =
     (CHR ''-'' \<notin> set s \<and> CHR ''.'' \<notin> set s \<and> \<not> bracketed s \<and> \<not> repeated_underscore s \<and>
      \<not> startswith s ''_'' \<and> \<not> endswith s ''_'')"

text \<open>The characters that decide whether a string is \<open>bracketed\<close>.\<close>

definition special :: "char \<Rightarrow> bool" where
  "special c = (c = CHR ''['' \<or> c = CHR '']'' \<or> c = CHR 0x0A)"

section \<open>YAMLAnalyzer.find_services_in_yaml\<close>

text \<open>\<open>str(i)\<close> for an integer, as an f-string prints it.\<close>

definition digit :: "nat \<Rightarrow> char" where
  "digit d = ''0123456789'' ! d"

fun str_nat :: "nat \<Rightarrow> string" where
  "str_nat n = (if n < 10 then [digit n] else str_nat (n div 10) @ [digit (n mod 10)])"

declare str_nat.simps [simp del]

definition str_int :: "int \<Rightarrow> string" where
  "str_int i = (if i < 0 then ''-'' @ str_nat (nat (- i)) else str_nat (nat i))"

text \<open>
  The hashable values that \<open>yaml.safe_load\<close> builds; they occur as values and as mapping
  keys. The traversal observes four things of such a value: whether it is a \<open>str\<close>, its
  truth value, the text an f-string prints for it, and which dict key it is. So a float
  is given by the text \<open>str\<close> prints for it and, when it is equal to an integer (as
  \<open>1.0\<close> or \<open>-0.0\<close>), by that integer; not-a-number is equal only to itself as an
  object, and is given by the identity of the object; any other value (a date, a
  datetime, bytes, a tuple inside an \<open>!!omap\<close>) is given by its text and its truth value.
\<close>

datatype scalar =
    SNone
  | SBool bool
  | SInt int
  | SStr string
  | SFloat string "int option"
  | SNan nat
  | SOther string bool

text \<open>
  What \<open>yaml.safe_load\<close> returns: a scalar, a set, a list or a dict. A dict is the list
  of its items in insertion order (the loader produces each key once; \<open>map_of\<close> reads
  the first item of a key). Anchors and aliases can make a document contain itself; the
  traversal sees the unfolding of the document, a tree that need not be finite, so the
  type is a codatatype.
\<close>

codatatype yaml =
    YScalar scalar
  | YSet bool
  | YSeq "yaml list"
  | YMap "(scalar \<times> yaml) list"

text \<open>The truth value, for \<open>if not data\<close>, \<open>if path\<close> and \<open>path or ...\<close>.\<close>

fun truthy_scalar :: "scalar \<Rightarrow> bool" where
  "truthy_scalar SNone = False"
| "truthy_scalar (SBool b) = b"
| "truthy_scalar (SInt i) = (i \<noteq> 0)"
| "truthy_scalar (SStr s) = (s \<noteq> [])"
| "truthy_scalar (SFloat text whole) = (whole \<noteq> Some 0)"
| "truthy_scalar (SNan ident) = True"
| "truthy_scalar (SOther text truth) = truth"

fun truthy :: "yaml \<Rightarrow> bool" where
  "truthy (YScalar a) = truthy_scalar a"
| "truthy (YSet nonempty) = nonempty"
| "truthy (YSeq xs) = (xs \<noteq> [])"
| "truthy (YMap items) = (items \<noteq> [])"

text \<open>The text that the f-strings \<open>f"{path}.{k}"\<close> and \<open>f"{path}[{i}]"\<close> print for a value.\<close>

fun str_scalar :: "scalar \<Rightarrow> string" where
  "str_scalar SNone = ''None''"
| "str_scalar (SBool b) = (if b then ''True'' else ''False'')"
| "str_scalar (SInt i) = str_int i"
| "str_scalar (SStr s) = s"
| "str_scalar (SFloat text whole) = text"
| "str_scalar (SNan ident) = ''nan''"
| "str_scalar (SOther text truth) = text"

text \<open>
  A key of the \<open>services\<close> dict. Mostly a string, but the name of a service is the path,
  which can be a mapping key of any type, or the value found under \<open>name\<close>,
  \<open>container_name\<close> or \<open>service\<close>. Values that hash and compare equal are one key:
  \<open>True\<close>, \<open>1\<close> and \<open>1.0\<close> are the key 1. A set, a list or a dict is unhashable, so
  that storing under it raises \<open>TypeError\<close>.
\<close>

datatype key = KStr string | KInt int | KNone | KFloat string | KNan nat | KOther string bool

fun scalar_key :: "scalar \<Rightarrow> key" where
  "scalar_key SNone = KNone"
| "scalar_key (SBool b) = KInt (if b then 1 else 0)"
| "scalar_key (SInt i) = KInt i"
| "scalar_key (SStr s) = KStr s"
| "scalar_key (SFloat text whole) = (case whole of Some i \<Rightarrow> KInt i | None \<Rightarrow> KFloat text)"
| "scalar_key (SNan ident) = KNan ident"
| "scalar_key (SOther text truth) = KOther text truth"

fun dict_key :: "yaml \<Rightarrow> key option" where
  "dict_key (YScalar a) = Some (scalar_key a)"
| "dict_key (YSet nonempty) = None"
| "dict_key (YSeq xs) = None"
| "dict_key (YMap items) = None"

text \<open>The exceptions that the analysis of a loaded document can raise.\<close>

datatype exn = TypeError | AttributeError | RecursionError

text \<open>
  A Python dict is an association list in insertion order; \<open>d[k] = v\<close> is
  \<open>AList.update k v d\<close>, which overwrites in place or appends.
\<close>

type_synonym services = "(key \<times> string) list"

text \<open>
  The keys below which the traversal does not go,
  \<open>k not in ['image', 'build', 'networks', 'volumes', 'ports', 'environment']\<close>;
  only a string is equal to one of them.
\<close>

definition structural_keys :: "string list" where
  "structural_keys = [''image'', ''build'', ''networks'', ''volumes'', ''ports'', ''environment'']"

definition structural :: "scalar \<Rightarrow> bool" where
  "structural k = (k \<in> SStr ` set structural_keys)"

text \<open>\<open>obj.get(n)\<close> for a string \<open>n\<close> (\<open>None\<close> here when \<open>n not in obj\<close>).\<close>

definition dict_get :: "(scalar \<times> yaml) list \<Rightarrow> string \<Rightarrow> yaml option" where
  "dict_get obj n = map_of obj (SStr n)"

text \<open>
  \<open>path or next((obj.get(n) for n in ['name', 'container_name', 'service'] if n in obj),
  "unnamed")\<close>, as the key it is stored under.
\<close>

fun first_present :: "(scalar \<times> yaml) list \<Rightarrow> string list \<Rightarrow> yaml option" where
  "first_present obj [] = None"
| "first_present obj (n # ns) =
     (case dict_get obj n of Some v \<Rightarrow> Some v | None \<Rightarrow> first_present obj ns)"

definition service_name :: "scalar \<Rightarrow> (scalar \<times> yaml) list \<Rightarrow> key option" where
  "service_name path obj =
     (if truthy_scalar path then Some (scalar_key path)
      else case first_present obj [''name'', ''container_name'', ''service''] of
             Some v \<Rightarrow> dict_key v
           | None \<Rightarrow> Some (KStr ''unnamed''))"

text \<open>
  The first statement of \<open>recursive_search\<close> on a dict: when \<open>obj\<close> has a string under
  \<open>image\<close>, store its tag under the name of the node. \<open>frames\<close> is the number of
  Python frames that the interpreter still allows inside this call of
  \<open>recursive_search\<close>; the call of \<open>extract_image_tag\<close> needs one.
\<close>

definition record_image ::
  "nat \<Rightarrow> scalar \<Rightarrow> (scalar \<times> yaml) list \<Rightarrow> services \<Rightarrow> exn \<times> services + services" where
  "record_image frames path obj services =
     (case dict_get obj ''image'' of
        Some (YScalar (SStr img)) \<Rightarrow>
          if frames = 0 then Inl (RecursionError, services)
          else
            (let tag = extract_image_tag img in
               case service_name path obj of
                 Some name \<Rightarrow> Inr (AList.update name tag services)
               | None \<Rightarrow> Inl (TypeError, services))
      | _ \<Rightarrow> Inr services)"

text \<open>
  The path handed to a child: \<open>f"{path}.{k}" if path else k\<close>, the key itself (of
  whatever type) under a falsy path, and \<open>f"{path}[{i}]"\<close>.
\<close>

definition child_path :: "scalar \<Rightarrow> scalar \<Rightarrow> scalar" where
  "child_path path k =
     (if truthy_scalar path then SStr (str_scalar path @ ''.'' @ str_scalar k) else k)"

definition index_path :: "scalar \<Rightarrow> nat \<Rightarrow> scalar" where
  "index_path path i = SStr (str_scalar path @ ''['' @ str_nat i @ '']'')"

text \<open>
  \<open>recursive_search\<close> with its two loops, over the items of a dict and over the
  enumerated elements of a list. The first argument is the number of Python frames the
  interpreter still allows (the recursion limit less the depth of the stack): every call
  of \<open>recursive_search\<close> takes one, and with none left the call raises
  \<open>RecursionError\<close>. The \<open>services\<close> dict of the enclosing function is passed along; a
  raised exception carries the dict as it was when raised, because the handler in
  \<open>find_services_in_yaml\<close> returns that dict.
\<close>

function recursive_search ::
    "nat \<Rightarrow> yaml \<Rightarrow> scalar \<Rightarrow> services \<Rightarrow> exn \<times> services + services"
  and search_items ::
    "nat \<Rightarrow> (scalar \<times> yaml) list \<Rightarrow> scalar \<Rightarrow> services \<Rightarrow> exn \<times> services + services"
  and search_seq ::
    "nat \<Rightarrow> yaml list \<Rightarrow> scalar \<Rightarrow> nat \<Rightarrow> services \<Rightarrow> exn \<times> services + services"
  where
  "recursive_search 0 obj path services = Inl (RecursionError, services)"
| "recursive_search (Suc frames) (YMap obj) path services =
     (case record_image frames path obj services of
        Inl e \<Rightarrow> Inl e
      | Inr services \<Rightarrow> search_items frames obj path services)"
| "recursive_search (Suc frames) (YSeq obj) path services =
     search_seq frames obj path 0 services"
| "recursive_search (Suc frames) (YScalar a) path services = Inr services"
| "recursive_search (Suc frames) (YSet nonempty) path services = Inr services"
| "search_items frames [] path services = Inr services"
| "search_items frames ((k, v) # items) path services =
     (if structural k then search_items frames items path services
      else case recursive_search frames v (child_path path k) services of
             Inl e \<Rightarrow> Inl e
           | Inr services \<Rightarrow> search_items frames items path services)"
| "search_seq frames [] path i services = Inr services"
| "search_seq frames (item # rest) path i services =
     (case recursive_search frames item (index_path path i) services of
        Inl e \<Rightarrow> Inl e
      | Inr services \<Rightarrow> search_seq frames rest path (Suc i) services)"
  by pat_completeness auto
termination
  by (relation "measures [\<lambda>x. case x of
        Inl (frames, _) \<Rightarrow> 2 * frames
      | Inr (Inl (frames, _)) \<Rightarrow> 2 * frames + 1
      | Inr (Inr (frames, _)) \<Rightarrow> 2 * frames + 1,
      \<lambda>x. case x of
        Inl _ \<Rightarrow> 0
      | Inr (Inl (_, items, _)) \<Rightarrow> length items
      | Inr (Inr (_, rest, _)) \<Rightarrow> length rest]") auto

text \<open>
  The world outside the analyzer: \<open>safe_load\<close> is \<open>yaml.safe_load\<close>, which returns a
  document, raises \<open>yaml.YAMLError\<close> or raises something else; \<open>frames_left\<close> is the number
  of frames the interpreter allows when \<open>find_services_in_yaml\<close> calls
  \<open>recursive_search\<close>; \<open>finditer pattern content\<close> are the matches of \<open>re.finditer\<close> for
  the \<open>pattern\<close>-th of the four patterns of \<open>extract_images_via_regex\<close>, each match
  given by its captured groups.
\<close>

datatype load = Loaded yaml | YAMLError | LoadException

record env =
  safe_load :: "string \<Rightarrow> load"
  frames_left :: nat
  finditer :: "nat \<Rightarrow> string \<Rightarrow> string list list"

text \<open>
  \<open>extract_images_via_regex\<close>: the matches of the four patterns in turn; a match with
  one group is stored under \<open>service_\<close> and the current size of the dict, a match with
  two groups under its first group.
\<close>

fun record_match :: "string list \<Rightarrow> services \<Rightarrow> services" where
  "record_match [g] services =
     AList.update (KStr (''service_'' @ str_nat (length services))) (extract_image_tag g) services"
| "record_match [g1, g2] services = AList.update (KStr g1) (extract_image_tag g2) services"
| "record_match groups services = services"

definition extract_images_via_regex :: "'a env_scheme \<Rightarrow> string \<Rightarrow> services" where
  "extract_images_via_regex env content =
     fold (\<lambda>pattern services. fold record_match (finditer env pattern content) services)
       [0, 1, 2, 3] []"

text \<open>
  \<open>find_services_in_yaml\<close>. The \<open>try\<close> block covers the load and the traversal;
  \<open>except yaml.YAMLError\<close> falls back to the patterns, \<open>except Exception\<close> prints
  (the print is taken to succeed) and goes on to \<open>return services\<close>, the dict as the
  traversal left it.
\<close>

definition find_services_in_yaml :: "'a env_scheme \<Rightarrow> string \<Rightarrow> services" where
  "find_services_in_yaml env content =
     (case safe_load env content of
        Loaded data \<Rightarrow>
          if \<not> truthy data then []
          else (case recursive_search (frames_left env) data (SStr []) [] of
                  Inr services \<Rightarrow> services
                | Inl (e, services) \<Rightarrow> services)
      | YAMLError \<Rightarrow> extract_images_via_regex env content
      | LoadException \<Rightarrow> [])"

text \<open>
  The nodes of a document that are reached from the root without passing through a
  structural key, in document order, down to a given depth; each with its path and the
  depth left below it, and \<open>Beyond\<close> where a node lies deeper.
\<close>

datatype visit = Visit nat scalar yaml | Beyond

function reached :: "nat \<Rightarrow> yaml \<Rightarrow> scalar \<Rightarrow> visit list"
  and reached_items :: "nat \<Rightarrow> (scalar \<times> yaml) list \<Rightarrow> scalar \<Rightarrow> visit list"
  and reached_seq :: "nat \<Rightarrow> yaml list \<Rightarrow> scalar \<Rightarrow> nat \<Rightarrow> visit list"
  where
  "reached 0 obj path = [Beyond]"
| "reached (Suc depth) (YMap obj) path =
     Visit depth path (YMap obj) # reached_items depth obj path"
| "reached (Suc depth) (YSeq obj) path =
     Visit depth path (YSeq obj) # reached_seq depth obj path 0"
| "reached (Suc depth) (YScalar a) path = [Visit depth path (YScalar a)]"
| "reached (Suc depth) (YSet nonempty) path = [Visit depth path (YSet nonempty)]"
| "reached_items depth [] path = []"
| "reached_items depth ((k, v) # items) path =
     (if structural k then [] else reached depth v (child_path path k))
     @ reached_items depth items path"
| "reached_seq depth [] path i = []"
| "reached_seq depth (item # rest) path i =
     reached depth item (index_path path i) @ reached_seq depth rest path (Suc i)"
  by pat_completeness auto
termination
  by (relation "measures [\<lambda>x. case x of
        Inl (depth, _) \<Rightarrow> 2 * depth
      | Inr (Inl (depth, _)) \<Rightarrow> 2 * depth + 1
      | Inr (Inr (depth, _)) \<Rightarrow> 2 * depth + 1,
      \<lambda>x. case x of
        Inl _ \<Rightarrow> 0
      | Inr (Inl (_, items, _)) \<Rightarrow> length items
      | Inr (Inr (_, rest, _)) \<Rightarrow> length rest]") auto

text \<open>
  What a reached node stands for: a dict with a string under \<open>image\<close> stands for one
  entry to store, its name and its tag; for \<open>Unhashable\<close> when its name is unhashable;
  for \<open>TooDeep\<close> when no depth is left for it. A node beyond the depth is \<open>TooDeep\<close>.
\<close>

datatype event = Store key string | Unhashable | TooDeep

fun entry :: "visit \<Rightarrow> event list" where
  "entry Beyond = [TooDeep]"
| "entry (Visit depth path obj) =
     (case obj of
        YMap items \<Rightarrow>
          (case dict_get items ''image'' of
             Some (YScalar (SStr img)) \<Rightarrow>
               if depth = 0 then [TooDeep]
               else (case service_name path items of
                       Some name \<Rightarrow> [Store name (extract_image_tag img)]
                     | None \<Rightarrow> [Unhashable])
           | _ \<Rightarrow> [])
      | _ \<Rightarrow> [])"

definition entries :: "nat \<Rightarrow> yaml \<Rightarrow> event list" where
  "entries depth data = concat (map entry (reached depth data (SStr [])))"

fun stored :: "event \<Rightarrow> bool" where
  "stored (Store name tag) = True"
| "stored Unhashable = False"
| "stored TooDeep = False"

fun stores :: "event list \<Rightarrow> (key \<times> string) list" where
  "stores [] = []"
| "stores (Store name tag # es) = (name, tag) # stores es"
| "stores (e # es) = stores es"

text \<open>
  Storing a list of entries one after the other; and going through a list of events, up
  to the first that raises.
\<close>

definition store_all :: "(key \<times> string) list \<Rightarrow> services \<Rightarrow> services" where
  "store_all ps services = fold (\<lambda>(name, tag). AList.update name tag) ps services"

fun write_all :: "event list \<Rightarrow> services \<Rightarrow> exn \<times> services + services" where
  "write_all [] services = Inr services"
| "write_all (Store name tag # es) services = write_all es (AList.update name tag services)"
| "write_all (Unhashable # es) services = Inl (TypeError, services)"
| "write_all (TooDeep # es) services = Inl (RecursionError, services)"


text \<open>
  An environment in which every text loads as the given document, with the frames of
  Python's default recursion limit.
\<close>

definition documents :: "yaml \<Rightarrow> env" where
  "documents data =
     \<lparr>safe_load = (\<lambda>content. Loaded data), frames_left = 1000,
      finditer = (\<lambda>pattern content. [])\<rparr>"

text \<open>
  A document that contains itself, as \<open>safe_load\<close> builds it for
  \<^verbatim>\<open>&a {image: x:1, b: *a}\<close>.
\<close>

primcorec cyclic :: yaml where
  "cyclic = YMap (map (\<lambda>k. (k, if k = SStr ''image'' then YScalar (SStr ''x:1'') else cyclic))
                   [SStr ''image'', SStr ''b''])"

section \<open>GitLabServiceCollector\<close>

text \<open>
  A project of the listing (its \<open>id\<close> and \<open>name\<close>) and an entry of a repository
  tree (its \<open>type\<close>, \<open>name\<close> and \<open>path\<close>).
\<close>

record project =
  proj_id :: nat
  proj_name :: string

record file_entry =
  f_type :: string
  f_name :: string
  f_path :: string

text \<open>
  The GitLab side of the environment, as the collector sees it through the API client:
  \<open>connected\<close> is the result of \<open>test_connection\<close>, \<open>all_projects\<close> the list that
  \<open>get_all_projects\<close> returned, \<open>project_files pid\<close> the result of
  \<open>get_project_files\<close> (empty on failure), \<open>file_content pid path\<close> the result of
  \<open>get_file_content\<close> (\<open>None\<close> on failure). \<open>completed\<close> is the order in which the
  pool's futures complete, which the scheduler chooses.
\<close>

record gitlab = env +
  connected :: bool
  all_projects :: "project list"
  project_files :: "nat \<Rightarrow> file_entry list"
  file_content :: "nat \<Rightarrow> string \<Rightarrow> string option"
  completed :: "project list \<Rightarrow> project list"

type_synonym service_map = "(string \<times> string) list"

type_synonym manifests = "(string \<times> service_map) list"

text \<open>
  The dict that \<open>analyze_project\<close> returns, the counters \<open>self.stats\<close>, and the
  collector's state: the counters and \<open>self.results\<close>.
\<close>

record analysis =
  res_project_id :: nat
  res_project_name :: string
  res_services :: manifests

record stats =
  total_projects :: nat
  projects_with_yaml :: nat
  total_yaml_files :: nat
  total_services :: nat
  errors :: nat

record collector =
  stats :: stats
  results :: "(string \<times> manifests) list"

text \<open>
  \<open>normalize_service_name\<close> applied to a key of the \<open>services\<close> dict. A key that is
  not a string passes \<open>if not name\<close> when it is falsy (\<open>None\<close>, a zero, \<open>False\<close>,
  empty bytes). Otherwise the call \<open>name.replace('-', '_')\<close> raises: a number has no
  \<open>replace\<close> method (\<open>AttributeError\<close>), and the \<open>replace\<close> of bytes or of a date
  does not take these arguments (\<open>TypeError\<close>).
\<close>

fun normalize_name :: "key \<Rightarrow> exn + string" where
  "normalize_name (KStr s) = Inr (normalize_service_name s)"
| "normalize_name KNone = Inr []"
| "normalize_name (KInt i) = (if i = 0 then Inr [] else Inl AttributeError)"
| "normalize_name (KFloat text) = Inl AttributeError"
| "normalize_name (KNan ident) = Inl AttributeError"
| "normalize_name (KOther text truth) = (if truth then Inl TypeError else Inr [])"

text \<open>
  The dict comprehension \<open>{normalize_service_name(s): t for s, t in services.items()}\<close>:
  the items are stored in order, a later item overwriting an earlier one of the same key.
\<close>

fun normalize_all :: "services \<Rightarrow> service_map \<Rightarrow> exn + service_map" where
  "normalize_all [] norm = Inr norm"
| "normalize_all ((s, t) # rest) norm =
     (case normalize_name s of
        Inl e \<Rightarrow> Inl e
      | Inr n \<Rightarrow> normalize_all rest (AList.update n t norm))"

text \<open>
  \<open>s.replace(old, '')\<close>: every occurrence of \<open>old\<close> is deleted, scanning from the
  left without overlap.
\<close>

fun remove_all :: "string \<Rightarrow> string \<Rightarrow> string" where
  "remove_all old [] = []"
| "remove_all old (c # cs) =
     (if old \<noteq> [] \<and> prefix old (c # cs) then remove_all old (drop (length old - 1) cs)
      else c # remove_all old cs)"

text \<open>
  The key of a manifest:
  \<open>yf['name'].replace('.yml', '').replace('.yaml', '')\<close>, then without a leading
  \<open>services_\<close>.
\<close>

definition manifest_key :: "string \<Rightarrow> string" where
  "manifest_key name =
     (let key = remove_all ''.yaml'' (remove_all ''.yml'' name)
      in if startswith key ''services_'' then drop 9 key else key)"

text \<open>
  The filter on the tree: blobs whose name ends in \<open>.yml\<close> or \<open>.yaml\<close> and is not
  one of the three ignored names.
\<close>

definition ignored_files :: "string list" where
  "ignored_files = [''.gitlab-ci.yml'', ''docker-compose.yml'', ''docker-compose.yaml'']"

definition is_candidate :: "file_entry \<Rightarrow> bool" where
  "is_candidate f =
     (f_type f = ''blob'' \<and> (endswith (f_name f) ''.yml'' \<or> endswith (f_name f) ''.yaml'') \<and>
      f_name f \<notin> set ignored_files)"

text \<open>
  The loop \<open>for yf in yaml_files\<close> of \<open>analyze_project\<close>, on the manifests
  recorded so far and the counters. The counters are shared state, so what was counted
  before an exception stays counted: an outcome is the counters together with either
  the exception or the manifests.
\<close>

fun analyze_files ::
  "'a gitlab_scheme \<Rightarrow> nat \<Rightarrow> file_entry list \<Rightarrow> manifests \<Rightarrow> stats \<Rightarrow> stats \<times> (exn + manifests)" where
  "analyze_files env pid [] project_services st = (st, Inr project_services)"
| "analyze_files env pid (yf # rest) project_services st =
     (case file_content env pid (f_path yf) of
        None \<Rightarrow> analyze_files env pid rest project_services (st\<lparr>errors := errors st + 1\<rparr>)
      | Some content \<Rightarrow>
          if content = [] then
            analyze_files env pid rest project_services (st\<lparr>errors := errors st + 1\<rparr>)
          else
            let services = find_services_in_yaml env content in
            if services \<noteq> [] then
              (case normalize_all services [] of
                 Inl e \<Rightarrow> (st, Inl e)
               | Inr norm \<Rightarrow>
                   analyze_files env pid rest
                     (AList.update (manifest_key (f_name yf)) norm project_services)
                     (st\<lparr>total_yaml_files := total_yaml_files st + 1,
                         total_services := total_services st + length services\<rparr>))
            else analyze_files env pid rest project_services st)"

definition analyze_project ::
  "'a gitlab_scheme \<Rightarrow> project \<Rightarrow> stats \<Rightarrow> stats \<times> (exn + analysis option)" where
  "analyze_project env project st =
     (let files = project_files env (proj_id project) in
      if files = [] then (st, Inr None)
      else
        let yaml_files = filter is_candidate files in
        if yaml_files = [] then (st, Inr None)
        else
          (case analyze_files env (proj_id project) yaml_files [] st of
             (st, Inl e) \<Rightarrow> (st, Inl e)
           | (st, Inr project_services) \<Rightarrow>
               if project_services \<noteq> [] then
                 (st\<lparr>projects_with_yaml := projects_with_yaml st + 1\<rparr>,
                  Inr (Some \<lparr>res_project_id = proj_id project,
                              res_project_name = proj_name project,
                              res_services = project_services\<rparr>))
               else (st, Inr None)))"

text \<open>
  The two branches of \<open>collect_all_services\<close>. With threads, every result is
  fetched inside \<open>try\<close>, and an exception of a unit is counted in \<open>errors\<close>; the
  units are run here one after the other, in the order in which they complete. Without
  threads (also when there is only one project) the loop calls \<open>analyze_project\<close>
  directly, and an exception leaves the loop and the function.
\<close>

fun collect_threaded :: "'a gitlab_scheme \<Rightarrow> project list \<Rightarrow> collector \<Rightarrow> collector" where
  "collect_threaded env [] c = c"
| "collect_threaded env (p # ps) c =
     (case analyze_project env p (stats c) of
        (st, Inr (Some res)) \<Rightarrow>
          collect_threaded env ps
            (c\<lparr>stats := st,
               results := AList.update (res_project_name res) (res_services res) (results c)\<rparr>)
      | (st, Inr None) \<Rightarrow> collect_threaded env ps (c\<lparr>stats := st\<rparr>)
      | (st, Inl e) \<Rightarrow> collect_threaded env ps (c\<lparr>stats := st\<lparr>errors := errors st + 1\<rparr>\<rparr>))"

fun collect_sequential ::
  "'a gitlab_scheme \<Rightarrow> project list \<Rightarrow> collector \<Rightarrow> exn \<times> collector + collector" where
  "collect_sequential env [] c = Inr c"
| "collect_sequential env (p # ps) c =
     (case analyze_project env p (stats c) of
        (st, Inr (Some res)) \<Rightarrow>
          collect_sequential env ps
            (c\<lparr>stats := st,
               results := AList.update (res_project_name res) (res_services res) (results c)\<rparr>)
      | (st, Inr None) \<Rightarrow> collect_sequential env ps (c\<lparr>stats := st\<rparr>)
      | (st, Inl e) \<Rightarrow> Inl (e, c\<lparr>stats := st\<rparr>))"

definition collect_all_services ::
  "'a gitlab_scheme \<Rightarrow> bool \<Rightarrow> collector \<Rightarrow> exn \<times> collector + collector" where
  "collect_all_services env use_threads c =
     (if \<not> connected env then Inr c
      else
        let projects = all_projects env in
        if projects = [] then Inr c
        else
          let c = c\<lparr>stats := (stats c)\<lparr>total_projects := length projects\<rparr>\<rparr> in
          if use_threads \<and> length projects > 1 then
            Inr (collect_threaded env (completed env projects) c)
          else collect_sequential env projects c)"

text \<open>
  The state set up by \<open>__init__\<close>.
\<close>

definition new_collector :: collector where
  "new_collector =
     \<lparr>stats = \<lparr>total_projects = 0, projects_with_yaml = 0, total_yaml_files = 0,
                total_services = 0, errors = 0\<rparr>,
      results = []\<rparr>"

text \<open>
  The collector after \<open>collect_all_services\<close>, whether it returned or raised.
\<close>

definition final :: "exn \<times> collector + collector \<Rightarrow> collector" where
  "final outcome = (case outcome of Inl (e, c) \<Rightarrow> c | Inr c \<Rightarrow> c)"

text \<open>
  A simulated GitLab, for concrete runs. A repository is a project with its files, each
  file a name, its text and the document the text loads as; files sit at the top of the
  tree, the connection is up, futures complete in the order of submission, and the
  traversal has the frames of Python's default recursion limit.
\<close>

definition blob :: "string \<Rightarrow> file_entry" where
  "blob name = \<lparr>f_type = ''blob'', f_name = name, f_path = name\<rparr>"

definition gitlab_of :: "(project \<times> (string \<times> string \<times> yaml) list) list \<Rightarrow> gitlab" where
  "gitlab_of repos =
     \<lparr>safe_load = (\<lambda>content.
        case map_of (concat (map (\<lambda>(p, files). map snd files) repos)) content of
          Some data \<Rightarrow> Loaded data
        | None \<Rightarrow> YAMLError),
      frames_left = 1000,
      finditer = (\<lambda>pattern content. []),
      connected = True,
      all_projects = map fst repos,
      project_files = (\<lambda>pid.
        case find (\<lambda>(p, files). proj_id p = pid) repos of
          Some (p, files) \<Rightarrow> map (\<lambda>(name, file). blob name) files
        | None \<Rightarrow> []),
      file_content = (\<lambda>pid path.
        case find (\<lambda>(p, files). proj_id p = pid) repos of
          Some (p, files) \<Rightarrow> map_option fst (map_of files path)
        | None \<Rightarrow> None),
      completed = (\<lambda>projects. projects)\<rparr>"

definition demo :: project where
  "demo = \<lparr>proj_id = 1, proj_name = ''demo''\<rparr>"

definition other :: project where
  "other = \<lparr>proj_id = 2, proj_name = ''other''\<rparr>"

definition web_manifest :: "string \<times> yaml" where
  "web_manifest =
     (''{web: {image: nginx:1.21}}'',
      YMap [(SStr ''web'', YMap [(SStr ''image'', YScalar (SStr ''nginx:1.21''))])])"

definition numbered_manifest :: "string \<times> yaml" where
  "numbered_manifest =
     (''{image: nginx:1.21, name: 5}'',
      YMap [(SStr ''image'', YScalar (SStr ''nginx:1.21'')), (SStr ''name'', YScalar (SInt 5))])"

definition dashed_manifest :: "string \<times> yaml" where
  "dashed_manifest =
     (''{services: {web-app: {image: nginx:1.21}}}'',
      YMap [(SStr ''services'',
             YMap [(SStr ''web-app'', YMap [(SStr ''image'', YScalar (SStr ''nginx:1.21''))])])])"

definition twin_manifest :: "string \<times> yaml" where
  "twin_manifest =
     (''{web-app: {image: a:1}, web.app: {image: b:2}}'',
      YMap [(SStr ''web-app'', YMap [(SStr ''image'', YScalar (SStr ''a:1''))]),
            (SStr ''web.app'', YMap [(SStr ''image'', YScalar (SStr ''b:2''))])])"

text \<open>
  A manifest whose only service has a line break inside the brackets of its name: the
  key is a literal block scalar of two lines.
\<close>

definition two_lines :: string where
  "two_lines = ''a['' @ [CHR 0x0A] @ ''b]''"

definition two_lines_manifest :: "string \<times> yaml" where
  "two_lines_manifest =
     (''? |-'' @ [CHR 0x0A] @ ''  a['' @ [CHR 0x0A] @ ''  b]'' @ [CHR 0x0A] @
      '': {image: nginx:1.21}'',
      YMap [(SStr two_lines, YMap [(SStr ''image'', YScalar (SStr ''nginx:1.21''))])])"

text \<open>
  The candidate manifests of a project, and the services that the analyzer extracts
  from one of them (none when its text cannot be fetched or is empty).
\<close>

definition candidates :: "'a gitlab_scheme \<Rightarrow> project \<Rightarrow> file_entry list" where
  "candidates env project = filter is_candidate (project_files env (proj_id project))"

definition raw_services :: "'a gitlab_scheme \<Rightarrow> nat \<Rightarrow> file_entry \<Rightarrow> services" where
  "raw_services env pid yf =
     (case file_content env pid (f_path yf) of
        None \<Rightarrow> []
      | Some content \<Rightarrow> if content = [] then [] else find_services_in_yaml env content)"

text \<open>
  A bracket pair in the plain sense: an opening bracket with a closing bracket anywhere
  after it.
\<close>

fun bracket_pair :: "string \<Rightarrow> bool" where
  "bracket_pair [] = False"
| "bracket_pair (c # cs) = ((c = CHR ''['' \<and> CHR '']'' \<in> set cs) \<or> bracket_pair cs)"

text \<open>
  Normalized keys, for the manifests of one project and for the results of a run.
\<close>

definition normalized_manifests :: "manifests \<Rightarrow> bool" where
  "normalized_manifests ms = (\<forall>(file, sm) \<in> set ms. \<forall>(k, t) \<in> set sm. normalized k)"

definition normalized_results :: "(string \<times> manifests) list \<Rightarrow> bool" where
  "normalized_results rs =
     (\<forall>(name, ms) \<in> set rs. \<forall>(file, sm) \<in> set ms. \<forall>(k, t) \<in> set sm. normalized k)"

section \<open>Results\<close>

subsection \<open>extract_image_tag\<close>

lemma extract_image_tag_no_colon:
  "CHR '':'' \<notin> set (strip s) \<Longrightarrow> extract_image_tag s = strip s"
  by (auto simp: extract_image_tag_def strip_def)

lemma extract_image_tag_single_brace:
  "extract_image_tag ''registry/app:${VERSION}'' = ''VERSION''"
  by (simp add: extract_image_tag_def strip_def isspace_def last_field_def
      startswith_def endswith_def slice_def suffix_def)

text \<open>
  What the function returns for an image string with a colon: the text after the last
  colon, without 2 characters in front and 1 at the end when it starts with \<open>${\<close> and
  ends with \<open>}\<close>. A tag wrapped in \<open>${{...}}\<close> is such a tag, so it takes the same
  branch and the branch written for it is never reached.
\<close>

lemma extract_image_tag_plain:
  assumes "CHR '':'' \<in> set (strip s)"
    and "\<not> (startswith (last_field (strip s)) ''${'' \<and> endswith (last_field (strip s)) ''}'')"
  shows "extract_image_tag s = last_field (strip s)"
proof -
  have "s \<noteq> []" using assms(1) by (auto simp: strip_def)
  moreover have "\<not> (startswith (last_field (strip s)) ''${{'' \<and>
                   endswith (last_field (strip s)) ''}}'')"
    using assms(2) by (auto simp: startswith_def endswith_def prefix_def suffix_def)
  ultimately show ?thesis using assms by (auto simp: extract_image_tag_def Let_def)
qed

lemma extract_image_tag_wrapped:
  assumes "CHR '':'' \<in> set (strip s)"
    and "startswith (last_field (strip s)) ''${''" and "endswith (last_field (strip s)) ''}''"
  shows "extract_image_tag s = slice 2 1 (last_field (strip s))"
proof -
  have "s \<noteq> []" using assms(1) by (auto simp: strip_def)
  then show ?thesis using assms by (auto simp: extract_image_tag_def Let_def)
qed

lemma extract_image_tag_double_wrapped:
  assumes "CHR '':'' \<in> set (strip s)"
    and "startswith (last_field (strip s)) ''${{''" and "endswith (last_field (strip s)) ''}}''"
  shows "extract_image_tag s = slice 2 1 (last_field (strip s))"
proof -
  have "startswith (last_field (strip s)) ''${''"
    using assms(2) by (auto simp: startswith_def prefix_def)
  moreover have "endswith (last_field (strip s)) ''}''"
    using assms(3) by (auto simp: endswith_def suffix_def)
  ultimately show ?thesis using assms(1) by (rule extract_image_tag_wrapped[rotated 1])
qed

text \<open>
  C1. The claim: after the last colon, a tag wrapped in \<open>${{...}}\<close> loses 3 characters in
  front and 2 at the end. The source tests the \<open>${...}\<close> wrapper first; every tag wrapped in
  \<open>${{...}}\<close> also starts with \<open>${\<close> and ends with \<open>}\<close>, so the first branch takes it and
  strips 2 and 1: the result keeps one brace on each side.
\<close>

theorem extract_image_tag_double_brace:
  "extract_image_tag ''app:${{TAG}}'' = ''{TAG}''"
  by (simp add: extract_image_tag_def strip_def isspace_def last_field_def
      startswith_def endswith_def slice_def suffix_def)

subsection \<open>make_request\<close>

lemma make_request_not_200:
  "send 0 = Returned r \<Longrightarrow> status_code r \<noteq> 200 \<Longrightarrow> status_code r \<noteq> 429 \<Longrightarrow>
   make_request send = (None, [])"
  by (simp add: make_request_def max_retries_def numeral_3_eq_3)

text \<open>
  In fact any first response other than a 200 ends the call at once, a 429 included.
\<close>

lemma make_request_first_not_200:
  "send 0 = Returned r \<Longrightarrow> status_code r \<noteq> 200 \<Longrightarrow> make_request send = (None, [])"
  by (auto simp: make_request_def max_retries_def numeral_3_eq_3 response_truthy_def)

text \<open>
  C5. The claim: two 429 responses followed by a 200 give two back-off sleeps and the
  successful response. A 429 response is false as a truth value, so
  \<open>response and response.status_code == 429\<close> does not hold for it: the first 429 falls
  through to the last branch, and the call returns nothing without sleeping.
\<close>

theorem make_request_429_429_200:
  "make_request (scripted [status_only 429, status_only 429, status_only 200]) = (None, [])"
  by (simp add: make_request_def max_retries_def numeral_3_eq_3 scripted_def status_only_def
      response_truthy_def)

subsection \<open>get_all_projects\<close>

lemma take_page: "take (n * k) xs @ take n (drop (n * k) xs) = take (n * Suc k) xs"
  using take_add[of "n * k" n xs] by (simp add: add.commute)

lemma loop_capped:
  assumes "0 < c" "c \<le> length items"
  shows "per_page * k < c \<Longrightarrow>
    get_all_projects_loop (paginated items) (int c) (take (per_page * k) items) (Suc k)
      = Some (take c items)"
proof (induction "c - per_page * k" arbitrary: k rule: less_induct)
  case less
  let ?acc = "take (per_page * Suc k) items"
  have ne: "take per_page (drop (per_page * k) items) \<noteq> []"
    using less.prems assms by (auto simp: per_page_def)
  show ?case
  proof (cases "c \<le> length ?acc")
    case True
    then have "take c ?acc = take c items"
      by (simp add: min_def split: if_splits)
    with True ne assms show ?thesis
      by (subst get_all_projects_loop.simps)
         (simp add: paginated_def response_truthy_def take_page upto_index_def Let_def
            del: length_take)
  next
    case False
    then have lt: "per_page * Suc k < c" and more: "per_page * Suc k < length items"
      using assms by (auto simp: min_def split: if_splits)
    have "c - per_page * Suc k < c - per_page * k"
      using lt by (simp add: per_page_def)
    from less.hyps[OF this lt] False ne assms more show ?thesis
      by (subst get_all_projects_loop.simps)
         (simp add: paginated_def response_truthy_def take_page Let_def del: length_take)
  qed
qed

lemma loop_uncapped:
  "per_page * k \<le> length items \<Longrightarrow>
    get_all_projects_loop (paginated items) 0 (take (per_page * k) items) (Suc k) = Some items"
proof (induction "length items - per_page * k" arbitrary: k rule: less_induct)
  case less
  show ?case
  proof (cases "per_page * k = length items")
    case True
    then show ?thesis
      by (subst get_all_projects_loop.simps) (simp add: paginated_def response_truthy_def)
  next
    case False
    with less.prems have lt: "per_page * k < length items" by simp
    then have ne: "take per_page (drop (per_page * k) items) \<noteq> []"
      by (auto simp: per_page_def)
    show ?thesis
    proof (cases "per_page * Suc k < length items")
      case True
      then have "length items - per_page * Suc k < length items - per_page * k"
        by (simp add: per_page_def)
      from less.hyps[OF this] True ne show ?thesis
        by (subst get_all_projects_loop.simps)
           (simp add: paginated_def response_truthy_def take_page Let_def)
    next
      case False
      then have "take (per_page * Suc k) items = items" by simp
      with False ne show ?thesis
        by (subst get_all_projects_loop.simps)
           (simp add: paginated_def response_truthy_def take_page Let_def)
    qed
  qed
qed

text \<open>
  C4 (as stated). With a cap of 0 and one full page, the claim asks for 0 projects; the
  source treats the cap 0 as no cap and returns all 50.
\<close>

theorem get_all_projects_cap_zero:
  "get_all_projects (paginated (replicate 50 (7::nat))) 0 = Some (replicate 50 7)"
  using loop_uncapped[of 0 "replicate 50 (7::nat)"] by (simp add: get_all_projects_def)

text \<open>
  C4 (amended). For a listing of \<open>N\<close> full pages and a cap \<open>C\<close> with
  \<open>0 < C < N * per_page\<close>, the loop ends and returns exactly the first \<open>C\<close> projects.
\<close>

theorem get_all_projects_capped:
  assumes "length items = N * per_page" "0 < C" "C < int (N * per_page)"
  shows "get_all_projects (paginated items) C = Some (take (nat C) items) \<and>
         length (take (nat C) items) = nat C"
proof -
  have c: "0 < nat C" "nat C \<le> length items" using assms by arith+
  from loop_capped[OF c, of 0] c show ?thesis
    by (simp add: get_all_projects_def)
qed

theorem get_all_projects_capped_witness:
  "length (replicate 100 (7::nat)) = 2 * per_page \<and> (0::int) < 60 \<and>
   (60::int) < int (2 * per_page) \<and>
   get_all_projects (paginated (replicate 100 (7::nat))) 60 = Some (replicate 60 7)"
  using get_all_projects_capped[of "replicate 100 (7::nat)" 2 60] by (simp add: per_page_def)

subsection \<open>normalize_service_name\<close>

lemma bracket_end_None:
  "bracket_end cs = None \<longleftrightarrow> CHR '']'' \<notin> set (takeWhile (\<lambda>x. x \<noteq> CHR 0x0A) cs)"
  by (induction cs) auto

lemma bracket_end_Some:
  "bracket_end cs = Some rest \<Longrightarrow>
   \<exists>mid. cs = mid @ CHR '']'' # rest \<and> CHR 0x0A \<notin> set mid"
proof (induction cs)
  case Nil
  then show ?case by simp
next
  case (Cons c cs)
  show ?case
  proof (cases "c = CHR '']''")
    case True
    with Cons.prems show ?thesis by auto
  next
    case False
    with Cons.prems have nl: "c \<noteq> CHR 0x0A" and "bracket_end cs = Some rest"
      by (auto split: if_splits)
    with Cons.IH obtain mid where "cs = mid @ CHR '']'' # rest" "CHR 0x0A \<notin> set mid"
      by blast
    with nl have "c # cs = (c # mid) @ CHR '']'' # rest \<and> CHR 0x0A \<notin> set (c # mid)"
      by simp
    then show ?thesis by blast
  qed
qed

lemma remove_brackets_subset: "set (remove_brackets s) \<subseteq> set s"
proof (induction s rule: remove_brackets.induct)
  case 1
  then show ?case by simp
next
  case (2 c cs)
  show ?case
  proof (cases "c = CHR ''[''")
    case False
    with 2 show ?thesis by auto
  next
    case True
    show ?thesis
    proof (cases "bracket_end cs")
      case None
      with True 2 show ?thesis by auto
    next
      case (Some rest)
      with bracket_end_Some obtain mid where "cs = mid @ CHR '']'' # rest" by blast
      then have "set rest \<subseteq> set cs" by auto
      with True Some 2 show ?thesis by auto
    qed
  qed
qed

lemma takeWhile_line:
  "CHR 0x0A \<notin> set mid \<Longrightarrow>
   takeWhile (\<lambda>x. x \<noteq> CHR 0x0A) (mid @ ys) = mid @ takeWhile (\<lambda>x. x \<noteq> CHR 0x0A) ys"
  by (induction mid) auto

lemma remove_brackets_line:
  "set (takeWhile (\<lambda>x. x \<noteq> CHR 0x0A) (remove_brackets s))
     \<subseteq> set (takeWhile (\<lambda>x. x \<noteq> CHR 0x0A) s)"
proof (induction s rule: remove_brackets.induct)
  case 1
  then show ?case by simp
next
  case (2 c cs)
  show ?case
  proof (cases "c = CHR ''[''")
    case False
    with 2 show ?thesis by auto
  next
    case True
    show ?thesis
    proof (cases "bracket_end cs")
      case None
      with True 2 show ?thesis by auto
    next
      case (Some rest)
      with bracket_end_Some obtain mid where
        mid: "cs = mid @ CHR '']'' # rest" "CHR 0x0A \<notin> set mid" by blast
      then have "takeWhile (\<lambda>x. x \<noteq> CHR 0x0A) cs
                 = mid @ CHR '']'' # takeWhile (\<lambda>x. x \<noteq> CHR 0x0A) rest"
        by (simp add: takeWhile_line)
      with True Some 2 show ?thesis by auto
    qed
  qed
qed

lemma remove_brackets_clean: "\<not> bracketed (remove_brackets s)"
proof (induction s rule: remove_brackets.induct)
  case 1
  then show ?case by simp
next
  case (2 c cs)
  show ?case
  proof (cases "c = CHR ''[''")
    case False
    with 2 show ?thesis by simp
  next
    case True
    show ?thesis
    proof (cases "bracket_end cs")
      case None
      then have "CHR '']'' \<notin> set (takeWhile (\<lambda>x. x \<noteq> CHR 0x0A) (remove_brackets cs))"
        using remove_brackets_line[of cs] by (auto simp: bracket_end_None)
      with True None 2 show ?thesis by simp
    next
      case (Some rest)
      with True 2 show ?thesis by simp
    qed
  qed
qed

lemma remove_brackets_id: "\<not> bracketed s \<Longrightarrow> remove_brackets s = s"
proof (induction s)
  case Nil
  then show ?case by simp
next
  case (Cons c cs)
  then have tl: "remove_brackets cs = cs" by simp
  show ?case
  proof (cases "c = CHR ''[''")
    case False
    with tl show ?thesis by simp
  next
    case True
    with Cons.prems have "bracket_end cs = None" by (simp add: bracket_end_None)
    with True tl show ?thesis by simp
  qed
qed

text \<open>
  Whether a string is \<open>bracketed\<close> depends only on its brackets and line breaks, so
  deleting underscores does not change it.
\<close>

lemma line_filter:
  "CHR '']'' \<in> set (takeWhile (\<lambda>x. x \<noteq> CHR 0x0A) (filter special cs))
   \<longleftrightarrow> CHR '']'' \<in> set (takeWhile (\<lambda>x. x \<noteq> CHR 0x0A) cs)"
  by (induction cs) (auto simp: special_def)

lemma bracketed_filter: "bracketed (filter special s) = bracketed s"
  by (induction s) (auto simp: line_filter, auto simp: special_def)

lemma bracketed_without_underscores:
  assumes "filter (\<lambda>c. c \<noteq> CHR ''_'') t = filter (\<lambda>c. c \<noteq> CHR ''_'') s"
  shows "bracketed t = bracketed s"
proof -
  have "filter special u = filter special (filter (\<lambda>c. c \<noteq> CHR ''_'') u)" for u
    by (induction u) (auto simp: special_def)
  then have "filter special t = filter special s"
    using assms by metis
  then show ?thesis using bracketed_filter by metis
qed

lemma collapse_filter:
  "filter (\<lambda>c. c \<noteq> CHR ''_'') (collapse_underscores s) = filter (\<lambda>c. c \<noteq> CHR ''_'') s"
proof (induction s rule: collapse_underscores.induct)
  case 1
  then show ?case by simp
next
  case (2 c cs)
  have "filter (\<lambda>c. c \<noteq> CHR ''_'') (dropWhile (\<lambda>x. x = CHR ''_'') cs)
        = filter (\<lambda>c. c \<noteq> CHR ''_'') cs"
    by (induction cs) auto
  with 2 show ?case by auto
qed

lemma strip_filter:
  "filter (\<lambda>c. c \<noteq> CHR ''_'') (strip_underscores s) = filter (\<lambda>c. c \<noteq> CHR ''_'') s"
proof -
  have d: "filter (\<lambda>c. c \<noteq> CHR ''_'') (dropWhile (\<lambda>x. x = CHR ''_'') u)
        = filter (\<lambda>c. c \<noteq> CHR ''_'') u" for u
    by (induction u) auto
  show ?thesis
    unfolding strip_underscores_def
    by (simp add: d rev_filter[symmetric])
qed

lemma collapse_subset: "set (collapse_underscores s) \<subseteq> set s"
proof (induction s rule: collapse_underscores.induct)
  case 1
  then show ?case by simp
next
  case (2 c cs)
  have "set (dropWhile (\<lambda>x. x = CHR ''_'') cs) \<subseteq> set cs"
    by (simp add: set_dropWhileD subsetI)
  with 2 show ?case by auto
qed

lemma strip_subset: "set (strip_underscores s) \<subseteq> set s"
  unfolding strip_underscores_def
  by (metis set_dropWhileD set_rev subsetI)

lemma collapse_Nil: "collapse_underscores s = [] \<longleftrightarrow> s = []"
  by (cases s) auto

lemma collapse_hd: "s \<noteq> [] \<Longrightarrow> hd (collapse_underscores s) = hd s"
  by (cases s) auto

lemma collapse_single: "\<not> repeated_underscore (collapse_underscores s)"
proof (induction s rule: collapse_underscores.induct)
  case 1
  then show ?case by simp
next
  case (2 c cs)
  show ?case
  proof (cases "c = CHR ''_''")
    case False
    with 2 show ?thesis by (cases "collapse_underscores cs") auto
  next
    case True
    let ?r = "dropWhile (\<lambda>x. x = CHR ''_'') cs"
    have "?r = [] \<or> hd ?r \<noteq> CHR ''_''"
      using hd_dropWhile[of "\<lambda>x. x = CHR ''_''" cs] by blast
    then have "collapse_underscores ?r = [] \<or> hd (collapse_underscores ?r) \<noteq> CHR ''_''"
      by (cases "?r = []") (simp_all add: collapse_Nil collapse_hd del: dropWhile_eq_Nil_conv)
    with True 2 show ?thesis by (cases "collapse_underscores ?r") auto
  qed
qed

lemma collapse_id: "\<not> repeated_underscore s \<Longrightarrow> collapse_underscores s = s"
proof (induction s rule: collapse_underscores.induct)
  case 1
  then show ?case by simp
next
  case (2 c cs)
  from 2(3) have tl: "\<not> repeated_underscore cs"
    by (cases cs) auto
  show ?case
  proof (cases "c = CHR ''_''")
    case False
    with 2 tl show ?thesis by simp
  next
    case True
    with 2(3) have "cs = [] \<or> hd cs \<noteq> CHR ''_''"
      by (cases cs) auto
    then have "dropWhile (\<lambda>x. x = CHR ''_'') cs = cs"
      by (cases cs) auto
    with True 2 tl show ?thesis by simp
  qed
qed

lemma repeated_underscore_prefix:
  "repeated_underscore xs \<Longrightarrow> repeated_underscore (xs @ ys)"
  by (induction xs rule: repeated_underscore.induct) auto

lemma repeated_underscore_suffix:
  "repeated_underscore ys \<Longrightarrow> repeated_underscore (xs @ ys)"
proof (induction xs)
  case Nil
  then show ?case by simp
next
  case (Cons x xs)
  then show ?case by (cases "xs @ ys") auto
qed

lemma strip_decomp:
  "\<exists>us vs. s = us @ strip_underscores s @ vs"
proof -
  let ?P = "\<lambda>c. c = CHR ''_''"
  let ?u = "dropWhile ?P s"
  have "rev ?u = takeWhile ?P (rev ?u) @ dropWhile ?P (rev ?u)" by simp
  then have "?u = strip_underscores s @ rev (takeWhile ?P (rev ?u))"
    unfolding strip_underscores_def by (metis rev_append rev_rev_ident)
  moreover have "s = takeWhile ?P s @ ?u" by simp
  ultimately show ?thesis by metis
qed

lemma strip_single:
  "\<not> repeated_underscore s \<Longrightarrow> \<not> repeated_underscore (strip_underscores s)"
  using strip_decomp[of s] repeated_underscore_prefix repeated_underscore_suffix by metis

lemma strip_ends:
  "\<not> startswith (strip_underscores s) ''_'' \<and> \<not> endswith (strip_underscores s) ''_''"
proof -
  let ?P = "\<lambda>c. c = CHR ''_''"
  let ?u = "dropWhile ?P s"
  let ?v = "dropWhile ?P (rev ?u)"
  have v: "?v = [] \<or> hd ?v \<noteq> CHR ''_''"
    using hd_dropWhile[of ?P "rev ?u"] by blast
  have u: "?u = [] \<or> hd ?u \<noteq> CHR ''_''"
    using hd_dropWhile[of ?P s] by blast
  have e: "\<not> suffix ''_'' (rev ?v)"
  proof
    assume "suffix ''_'' (rev ?v)"
    then obtain zs where "rev ?v = zs @ ''_''" by (auto simp: suffix_def)
    then have "?v = CHR ''_'' # rev zs" by (metis rev.simps(2) rev_rev_ident rev_append append_Nil rev_singleton_conv)
    with v show False by simp
  qed
  have s: "\<not> prefix ''_'' (rev ?v)"
  proof
    assume p: "prefix ''_'' (rev ?v)"
    then obtain zs where zs: "rev ?v = CHR ''_'' # zs" by (auto simp: prefix_def)
    have "prefix (rev ?v) ?u"
      by (metis suffix_dropWhile rev_rev_ident suffix_to_prefix)
    with zs obtain ws where "?u = CHR ''_'' # ws" by (auto simp: prefix_def)
    with u show False by simp
  qed
  from e s show ?thesis
    by (simp add: strip_underscores_def startswith_def endswith_def)
qed

lemma strip_id:
  "\<not> startswith s ''_'' \<Longrightarrow> \<not> endswith s ''_'' \<Longrightarrow> strip_underscores s = s"
proof -
  assume a: "\<not> startswith s ''_''" and b: "\<not> endswith s ''_''"
  let ?P = "\<lambda>c. c = CHR ''_''"
  from a have "dropWhile ?P s = s"
    by (cases s) (auto simp: startswith_def)
  moreover from b have "dropWhile ?P (rev s) = rev s"
    by (cases s rule: rev_cases) (auto simp: endswith_def)
  ultimately show ?thesis by (simp add: strip_underscores_def)
qed

lemma normalize_normalized: "normalized (normalize_service_name x)"
proof (cases "x = []")
  case True
  then show ?thesis
    by (simp add: normalize_service_name_def normalized_def startswith_def endswith_def)
next
  case False
  define s1 where "s1 = replace_char CHR ''.'' CHR ''_'' (replace_char CHR ''-'' CHR ''_'' x)"
  define s2 where "s2 = (if startswith s1 ''services_'' then drop 9 s1 else s1)"
  define s3 where "s3 = remove_brackets s2"
  define s4 where "s4 = collapse_underscores s3"
  have n: "normalize_service_name x = strip_underscores s4"
    using False by (simp add: normalize_service_name_def s1_def s2_def s3_def s4_def)
  have "CHR ''-'' \<notin> set s1 \<and> CHR ''.'' \<notin> set s1"
    by (auto simp: s1_def replace_char_def)
  moreover have "set s2 \<subseteq> set s1"
    by (auto simp: s2_def dest: in_set_dropD)
  moreover have "set s3 \<subseteq> set s2"
    unfolding s3_def by (rule remove_brackets_subset)
  moreover have "set s4 \<subseteq> set s3"
    unfolding s4_def by (rule collapse_subset)
  moreover have "set (strip_underscores s4) \<subseteq> set s4"
    by (rule strip_subset)
  ultimately have chars:
    "CHR ''-'' \<notin> set (strip_underscores s4) \<and> CHR ''.'' \<notin> set (strip_underscores s4)"
    by blast
  have "\<not> bracketed s3"
    unfolding s3_def by (rule remove_brackets_clean)
  then have "\<not> bracketed s4"
    using bracketed_without_underscores[OF collapse_filter, of s3] by (simp add: s4_def)
  then have br: "\<not> bracketed (strip_underscores s4)"
    using bracketed_without_underscores[OF strip_filter, of s4] by simp
  have "\<not> repeated_underscore s4"
    unfolding s4_def by (rule collapse_single)
  then have un: "\<not> repeated_underscore (strip_underscores s4)"
    by (rule strip_single)
  from chars br un strip_ends[of s4] show ?thesis
    by (simp add: n normalized_def)
qed

lemma normalize_id:
  assumes "normalized y" "\<not> startswith y ''services_''"
  shows "normalize_service_name y = y"
proof (cases "y = []")
  case True
  then show ?thesis by (simp add: normalize_service_name_def)
next
  case False
  have r: "replace_char a b u = u" if "a \<notin> set u" for a b u
    using that unfolding replace_char_def by (induction u) auto
  from assms(1) have "replace_char CHR ''.'' CHR ''_'' (replace_char CHR ''-'' CHR ''_'' y) = y"
    by (simp add: normalized_def r)
  moreover from assms(1) have "remove_brackets y = y"
    by (simp add: normalized_def remove_brackets_id)
  moreover from assms(1) have "collapse_underscores y = y"
    by (simp add: normalized_def collapse_id)
  moreover from assms(1) have "strip_underscores y = y"
    by (simp add: normalized_def strip_id)
  ultimately show ?thesis
    using False assms(2) by (simp add: normalize_service_name_def)
qed

text \<open>
  C3 (as stated). Only one leading \<open>services_\<close> prefix is removed, so a second pass
  can remove another one.
\<close>

theorem normalize_service_name_not_idempotent:
  "normalize_service_name (normalize_service_name ''services_services_x'')
     \<noteq> normalize_service_name ''services_services_x''"
  by (simp add: normalize_service_name_def replace_char_def startswith_def strip_underscores_def)

text \<open>
  C3 (amended). Whenever the normalized name does not itself start with \<open>services_\<close>,
  normalizing it again changes nothing.
\<close>

theorem normalize_service_name_idempotent:
  "\<not> startswith (normalize_service_name x) ''services_'' \<Longrightarrow>
   normalize_service_name (normalize_service_name x) = normalize_service_name x"
  by (rule normalize_id[OF normalize_normalized])

theorem normalize_service_name_idempotent_witness:
  "\<not> startswith (normalize_service_name ''my-app.web[0]'') ''services_'' \<and>
   normalize_service_name (normalize_service_name ''my-app.web[0]'')
     = normalize_service_name ''my-app.web[0]''"
  using normalize_service_name_idempotent[of "''my-app.web[0]''"]
  by (simp add: normalize_service_name_def replace_char_def startswith_def strip_underscores_def)

subsection \<open>find_services_in_yaml\<close>





lemma write_all_stored:
  "\<forall>e \<in> set es. stored e \<Longrightarrow> write_all es sv = Inr (store_all (stores es) sv)"
  by (induction es sv rule: write_all.induct) (simp_all add: store_all_def)
















text \<open>The traversal at a depth given as a numeral.\<close>

lemma recursive_search_numeral:
  "recursive_search (numeral n) (YMap obj) path services =
     (case record_image (pred_numeral n) path obj services of
        Inl e \<Rightarrow> Inl e
      | Inr services \<Rightarrow> search_items (pred_numeral n) obj path services)"
  "recursive_search (numeral n) (YSeq xs) path services =
     search_seq (pred_numeral n) xs path 0 services"
  "recursive_search (numeral n) (YScalar a) path services = Inr services"
  "recursive_search (numeral n) (YSet nonempty) path services = Inr services"
  by (simp_all add: numeral_eq_Suc)

lemma reached_numeral:
  "reached (numeral n) (YMap obj) path =
     Visit (pred_numeral n) path (YMap obj) # reached_items (pred_numeral n) obj path"
  "reached (numeral n) (YSeq xs) path =
     Visit (pred_numeral n) path (YSeq xs) # reached_seq (pred_numeral n) xs path 0"
  "reached (numeral n) (YScalar a) path = [Visit (pred_numeral n) path (YScalar a)]"
  "reached (numeral n) (YSet nonempty) path = [Visit (pred_numeral n) path (YSet nonempty)]"
  by (simp_all add: numeral_eq_Suc)

lemmas search_defs = find_services_in_yaml_def documents_def recursive_search_numeral
  reached_numeral entries_def structural_def structural_keys_def dict_get_def child_path_def
  index_path_def str_nat.simps str_int_def digit_def record_image_def service_name_def
  extract_image_tag_def strip_def isspace_def last_field_def startswith_def endswith_def
  suffix_def slice_def Let_def






lemma find_services_in_yaml_example:
  "find_services_in_yaml (documents (YMap [(SStr ''services'', YMap
       [(SStr ''web'', YMap [(SStr ''image'', YScalar (SStr ''nginx:1.21'')),
          (SStr ''volumes'', YMap [(SStr ''data'', YMap [(SStr ''image'', YScalar (SStr ''x:9''))])])]),
        (SInt 5, YSeq [YMap [(SStr ''image'', YScalar (SStr ''pg:${V}''))]])])])) ''services: ...''
   = [(KStr ''services.web'', ''1.21''), (KStr ''services.5[0]'', ''V'')]"
  by (simp add: search_defs)

text \<open>
  A mapping key that is not a string is handed on as the path itself: under the key
  \<open>1\<close> at the root the entry is stored under the integer \<open>1\<close>, not under a string; and
  a falsy key (\<open>0\<close>, \<open>False\<close>, null, the empty string) at the root leaves the path
  empty, so that the node is named by its \<open>name\<close>, or \<open>unnamed\<close>.
\<close>

lemma find_services_in_yaml_integer_key:
  "find_services_in_yaml
     (documents (YMap [(SInt 1, YMap [(SStr ''image'', YScalar (SStr ''nginx:1.21''))])]))
     ''{1: {image: nginx:1.21}}'' = [(KInt 1, ''1.21'')]"
  by (simp add: search_defs)

lemma find_services_in_yaml_falsy_key:
  "find_services_in_yaml
     (documents (YMap [(SInt 0, YMap [(SStr ''image'', YScalar (SStr ''nginx:1.21''))])]))
     ''{0: {image: nginx:1.21}}'' = [(KStr ''unnamed'', ''1.21'')]"
  by (simp add: search_defs)

text \<open>
  On the document that contains itself the traversal goes down until the recursion
  limit; the \<open>RecursionError\<close> is swallowed, and the entries stored on the way down
  are returned: with three frames, two.
\<close>

lemma find_services_in_yaml_cyclic:
  "find_services_in_yaml
     \<lparr>safe_load = (\<lambda>content. Loaded cyclic), frames_left = 3, finditer = (\<lambda>pattern content. [])\<rparr>
     ''&a {image: x:1, b: *a}''
   = [(KStr ''unnamed'', ''1''), (KStr ''b'', ''1'')]"
proof -
  have c: "cyclic = YMap [(SStr ''image'', YScalar (SStr ''x:1'')), (SStr ''b'', cyclic)]"
    by (subst cyclic.code) simp
  have t: "truthy cyclic" by (subst c) simp
  have s1: "recursive_search (Suc 0) cyclic path sv = Inl (RecursionError, sv)" for path sv
    by (subst c) (simp add: record_image_def dict_get_def)
  have s2: "recursive_search (Suc (Suc 0)) cyclic (SStr ''b'') sv
            = Inl (RecursionError, AList.update (KStr ''b'') ''1'' sv)" for sv
    by (subst c)
       (simp add: s1 record_image_def dict_get_def service_name_def structural_def
          structural_keys_def child_path_def extract_image_tag_def strip_def isspace_def
          last_field_def startswith_def endswith_def)
  have s3: "recursive_search (Suc (Suc (Suc 0))) cyclic (SStr []) []
            = Inl (RecursionError, [(KStr ''unnamed'', ''1''), (KStr ''b'', ''1'')])"
    by (subst c)
       (simp add: s2 record_image_def dict_get_def service_name_def structural_def
          structural_keys_def child_path_def extract_image_tag_def strip_def isspace_def
          last_field_def startswith_def endswith_def)
  show ?thesis
    using t s3 by (simp add: find_services_in_yaml_def numeral_3_eq_3)
qed




subsection \<open>analyze_project and collect_all_services\<close>

lemmas eval_defs = gitlab_of_def demo_def other_def web_manifest_def numbered_manifest_def
  blob_def new_collector_def collect_all_services_def analyze_project_def is_candidate_def
  ignored_files_def manifest_key_def find_services_in_yaml_def recursive_search_numeral
  structural_def structural_keys_def dict_get_def child_path_def record_image_def
  service_name_def extract_image_tag_def strip_def isspace_def last_field_def startswith_def
  endswith_def suffix_def normalize_service_name_def replace_char_def strip_underscores_def
  Let_def

text \<open>
  The end-to-end example of the specification: \<open>docker-compose.yml\<close> is ignored and
  \<open>infra.yaml\<close> is recorded under \<open>infra\<close>.
\<close>

lemma analyze_project_infra: "analyze_project
     (gitlab_of [(demo, [(''docker-compose.yml'', web_manifest), (''infra.yaml'', web_manifest)])])
     demo (stats new_collector)
   = (\<lparr>total_projects = 0, projects_with_yaml = 1, total_yaml_files = 1, total_services = 1,
       errors = 0\<rparr>,
      Inr (Some \<lparr>res_project_id = 1, res_project_name = ''demo'',
                  res_services = [(''infra'', [(''web'', ''1.21'')])]\<rparr>))"
  by (simp add: eval_defs)

text \<open>
  C7. The claim: a manifest is recorded under its file name without the extension. The
  source deletes every occurrence of \<open>.yml\<close> and then of \<open>.yaml\<close>, not only the
  extension: \<open>app.yml.yaml\<close> is recorded under \<open>app\<close>, not under \<open>app.yml\<close>.
\<close>

theorem analyze_project_inner_extension: "analyze_project
     (gitlab_of [(demo, [(''app.yml.yaml'', web_manifest)])])
     demo (stats new_collector)
   = (\<lparr>total_projects = 0, projects_with_yaml = 1, total_yaml_files = 1, total_services = 1,
       errors = 0\<rparr>,
      Inr (Some \<lparr>res_project_id = 1, res_project_name = ''demo'',
                  res_services = [(''app'', [(''web'', ''1.21'')])]\<rparr>))"
  by (simp add: eval_defs)

text \<open>
  C6. The claim: a fault inside one project's analysis is counted once in \<open>errors\<close>
  and the run goes on, also when there is exactly one project. With one project the
  source takes the loop without \<open>try\<close>: the \<open>AttributeError\<close> raised for the service
  name \<open>5\<close> leaves \<open>collect_all_services\<close>, and \<open>errors\<close> stays 0.
\<close>

theorem collect_all_services_single_fault:
  "collect_all_services (gitlab_of [(demo, [(''app.yml'', numbered_manifest)])]) True new_collector
   = Inl (AttributeError,
          \<lparr>stats = \<lparr>total_projects = 1, projects_with_yaml = 0, total_yaml_files = 0,
                     total_services = 0, errors = 0\<rparr>,
           results = []\<rparr>)"
  by (simp add: eval_defs)

text \<open>
  With two projects and threads the same fault is caught and counted, and the other
  project's result is kept; without threads it ends the run before the other project.
\<close>

lemma collect_all_services_threaded_fault:
  "collect_all_services
     (gitlab_of [(demo, [(''app.yml'', numbered_manifest)]),
                 (other, [(''infra.yaml'', web_manifest)])]) True new_collector
   = Inr \<lparr>stats = \<lparr>total_projects = 2, projects_with_yaml = 1, total_yaml_files = 1,
                     total_services = 1, errors = 1\<rparr>,
           results = [(''other'', [(''infra'', [(''web'', ''1.21'')])])]\<rparr>"
  by (simp add: eval_defs)

lemma collect_all_services_sequential_fault:
  "collect_all_services
     (gitlab_of [(demo, [(''app.yml'', numbered_manifest)]),
                 (other, [(''infra.yaml'', web_manifest)])]) False new_collector
   = Inl (AttributeError,
          \<lparr>stats = \<lparr>total_projects = 2, projects_with_yaml = 0, total_yaml_files = 0,
                     total_services = 0, errors = 0\<rparr>,
           results = []\<rparr>)"
  by (simp add: eval_defs)

lemma set_update_subset: "set (AList.update k v al) \<subseteq> insert (k, v) (set al)"
  by (induction al) auto

lemma normalized_empty: "normalized []"
  by (simp add: normalized_def startswith_def endswith_def)

lemma normalize_name_normalized: "normalize_name s = Inr n \<Longrightarrow> normalized n"
  using normalize_normalized normalized_empty
  by (cases s) (auto split: if_splits)

lemma normalize_all_normalized:
  "normalize_all sv acc = Inr norm \<Longrightarrow> \<forall>(k, t) \<in> set acc. normalized k \<Longrightarrow>
   \<forall>(k, t) \<in> set norm. normalized k"
proof (induction sv acc rule: normalize_all.induct)
  case (1 norm')
  then show ?case by simp
next
  case (2 s t rest acc)
  from "2.prems"(1) obtain n where n: "normalize_name s = Inr n"
    and r: "normalize_all rest (AList.update n t acc) = Inr norm"
    by (auto split: sum.splits)
  have "\<forall>(k, t) \<in> set (AList.update n t acc). normalized k"
    using set_update_subset[of n t acc] "2.prems"(2) normalize_name_normalized[OF n] by auto
  with "2.IH"[OF n r] show ?case .
qed

lemma analyze_files_normalized:
  "analyze_files env pid files ps st = (st', Inr ps') \<Longrightarrow> normalized_manifests ps \<Longrightarrow>
   normalized_manifests ps'"
proof (induction env pid files ps st rule: analyze_files.induct)
  case (1 env pid ps st)
  then show ?case by simp
next
  case (2 env pid yf rest ps st)
  show ?case
  proof (cases "file_content env pid (f_path yf)")
    case None
    with 2 show ?thesis by simp
  next
    case (Some content)
    show ?thesis
    proof (cases "content = []")
      case True
      with Some 2 show ?thesis by simp
    next
      case False
      let ?sv = "find_services_in_yaml env content"
      show ?thesis
      proof (cases "?sv = []")
        case True
        with Some False 2 show ?thesis by (simp add: Let_def)
      next
        case nonempty: False
        from "2.prems"(1) Some False nonempty obtain norm where
          norm: "normalize_all ?sv [] = Inr norm"
          by (auto simp: Let_def split: sum.splits)
        let ?ps = "AList.update (manifest_key (f_name yf)) norm ps"
        have "\<forall>(k, t) \<in> set norm. normalized k"
          using normalize_all_normalized[OF norm] by simp
        then have ok: "normalized_manifests ?ps"
          using "2.prems"(2) set_update_subset[of "manifest_key (f_name yf)" norm ps]
          unfolding normalized_manifests_def by blast
        from "2.prems"(1) Some False nonempty norm
        have "analyze_files env pid rest ?ps
                (st\<lparr>total_yaml_files := total_yaml_files st + 1,
                    total_services := total_services st + length ?sv\<rparr>) = (st', Inr ps')"
          by (simp add: Let_def)
        with "2.IH"(3)[OF Some False refl _ norm] nonempty ok show ?thesis by blast
      qed
    qed
  qed
qed

lemma analyze_project_normalized:
  assumes "analyze_project env p st = (st', Inr (Some res))"
  shows "normalized_manifests (res_services res)"
proof -
  let ?files = "filter is_candidate (project_files env (proj_id p))"
  obtain st1 outcome where a: "analyze_files env (proj_id p) ?files [] st = (st1, outcome)"
    by (cases "analyze_files env (proj_id p) ?files [] st")
  from assms a obtain ps where ps: "outcome = Inr ps" and r: "res_services res = ps"
    unfolding analyze_project_def Let_def
    by (cases outcome) (auto split: if_splits)
  have "normalized_manifests []" by (simp add: normalized_manifests_def)
  with a ps have "normalized_manifests ps"
    using analyze_files_normalized by blast
  with r show ?thesis by simp
qed

lemma results_update_normalized:
  "normalized_results rs \<Longrightarrow> normalized_manifests ms \<Longrightarrow>
   normalized_results (AList.update name ms rs)"
  using set_update_subset[of name ms rs]
  unfolding normalized_results_def normalized_manifests_def by blast

lemma collect_threaded_normalized:
  "normalized_results (results c) \<Longrightarrow> normalized_results (results (collect_threaded env ps c))"
proof (induction env ps c rule: collect_threaded.induct)
  case (1 env c)
  then show ?case by simp
next
  case (2 env p ps c)
  obtain st outcome where a: "analyze_project env p (stats c) = (st, outcome)"
    by (cases "analyze_project env p (stats c)")
  show ?case
  proof (cases outcome)
    case (Inl e)
    with a 2 show ?thesis by simp
  next
    case (Inr r)
    show ?thesis
    proof (cases r)
      case None
      with a Inr 2 show ?thesis by auto
    next
      case (Some res)
      with a Inr have "normalized_manifests (res_services res)"
        using analyze_project_normalized by blast
      with "2.prems" have "normalized_results
          (AList.update (res_project_name res) (res_services res) (results c))"
        by (rule results_update_normalized)
      with a Inr Some "2.IH" show ?thesis by auto
    qed
  qed
qed

lemma collect_sequential_normalized:
  "normalized_results (results c) \<Longrightarrow>
   normalized_results (results (final (collect_sequential env ps c)))"
proof (induction env ps c rule: collect_sequential.induct)
  case (1 env c)
  then show ?case by (simp add: final_def)
next
  case (2 env p ps c)
  obtain st outcome where a: "analyze_project env p (stats c) = (st, outcome)"
    by (cases "analyze_project env p (stats c)")
  show ?case
  proof (cases outcome)
    case (Inl e)
    with a 2 show ?thesis by (simp add: final_def)
  next
    case (Inr r)
    show ?thesis
    proof (cases r)
      case None
      with a Inr 2 show ?thesis by auto
    next
      case (Some res)
      with a Inr have "normalized_manifests (res_services res)"
        using analyze_project_normalized by blast
      with "2.prems" have "normalized_results
          (AList.update (res_project_name res) (res_services res) (results c))"
        by (rule results_update_normalized)
      with a Inr Some "2.IH" show ?thesis by auto
    qed
  qed
qed

lemma collect_all_services_normalized:
  "normalized_results (results (final (collect_all_services env use_threads new_collector)))"
proof -
  let ?c = "new_collector\<lparr>stats := (stats new_collector)
              \<lparr>total_projects := length (all_projects env)\<rparr>\<rparr>"
  have e: "normalized_results (results new_collector)"
    by (simp add: normalized_results_def new_collector_def)
  then have c: "normalized_results (results ?c)" by simp
  consider (off) "\<not> connected env \<or> all_projects env = []"
    | (threads) "connected env" "all_projects env \<noteq> []"
        "use_threads \<and> length (all_projects env) > 1"
    | (loop) "connected env" "all_projects env \<noteq> []"
        "\<not> (use_threads \<and> length (all_projects env) > 1)"
    by blast
  then show ?thesis
  proof cases
    case off
    then have "collect_all_services env use_threads new_collector = Inr new_collector"
      by (auto simp: collect_all_services_def)
    with e show ?thesis by (simp add: final_def)
  next
    case threads
    then have "collect_all_services env use_threads new_collector
        = Inr (collect_threaded env (completed env (all_projects env)) ?c)"
      by (simp add: collect_all_services_def Let_def)
    with collect_threaded_normalized[OF c] show ?thesis by (simp add: final_def)
  next
    case loop
    then have "collect_all_services env use_threads new_collector
        = collect_sequential env (all_projects env) ?c"
      by (auto simp: collect_all_services_def Let_def)
    with collect_sequential_normalized[OF c] show ?thesis by simp
  qed
qed

text \<open>
  C8 (as stated). The claim: every key of every service map in the results has no
  bracket pair. The source deletes a bracket pair with a regular expression whose dot
  does not match a line break, so a pair with a line break between its brackets stays: a
  service named \<open>a[\<close>, line break, \<open>b]\<close> is recorded in the results under that very
  name.
\<close>

theorem results_keys_bracket_pair:
  "results (final (collect_all_services
       (gitlab_of [(demo, [(''infra.yaml'', two_lines_manifest)])]) True new_collector))
     = [(''demo'', [(''infra'', [(two_lines, ''1.21'')])])] \<and>
   bracket_pair two_lines"
  by (simp add: eval_defs final_def two_lines_manifest_def two_lines_def)

text \<open>
  C8 (amended). After a run of \<open>collect_all_services\<close> on a new collector, whether it
  returned or raised, every key of every service map in the results is normalized: no
  \<open>-\<close>, no \<open>.\<close>, no opening bracket followed by a closing bracket on the same line, no
  two adjacent underscores, no underscore at either end.
\<close>

theorem results_keys_normalized:
  "\<forall>(name, ms) \<in> set (results (final (collect_all_services env use_threads new_collector))).
   \<forall>(file, sm) \<in> set ms. \<forall>(k, t) \<in> set sm.
     CHR ''-'' \<notin> set k \<and> CHR ''.'' \<notin> set k \<and> \<not> bracketed k \<and> \<not> repeated_underscore k \<and>
     \<not> startswith k ''_'' \<and> \<not> endswith k ''_''"
  using collect_all_services_normalized[of env use_threads]
  unfolding normalized_results_def normalized_def by simp

theorem results_keys_normalized_witness:
  "(''demo'', [(''infra'', [(''web_app'', ''1.21'')])])
     \<in> set (results (final (collect_all_services
           (gitlab_of [(demo, [(''infra.yaml'', dashed_manifest)])]) True new_collector))) \<and>
   CHR ''-'' \<notin> set ''web_app'' \<and> CHR ''.'' \<notin> set ''web_app'' \<and> \<not> bracketed ''web_app'' \<and>
   \<not> repeated_underscore ''web_app'' \<and> \<not> startswith ''web_app'' ''_'' \<and>
   \<not> endswith ''web_app'' ''_''"
proof -
  let ?env = "gitlab_of [(demo, [(''infra.yaml'', dashed_manifest)])]"
  have r: "results (final (collect_all_services ?env True new_collector))
           = [(''demo'', [(''infra'', [(''web_app'', ''1.21'')])])]"
    by (simp add: eval_defs final_def dashed_manifest_def)
  from results_keys_normalized[of ?env True] r show ?thesis by simp
qed

subsection \<open>Raw and normalized service names\<close>

lemma normalize_all_distinct:
  "normalize_all sv acc = Inr norm \<Longrightarrow> distinct (map fst acc) \<Longrightarrow> distinct (map fst norm)"
  by (induction sv acc rule: normalize_all.induct) (auto simp: distinct_update split: sum.splits)

lemma normalize_all_keys:
  "normalize_all sv acc = Inr norm \<Longrightarrow>
   Inr ` fst ` set norm = Inr ` fst ` set acc \<union> normalize_name ` fst ` set sv"
proof (induction sv acc rule: normalize_all.induct)
  case (1 norm')
  then show ?case by simp
next
  case (2 s t rest acc)
  from "2.prems" obtain n where n: "normalize_name s = Inr n"
    and r: "normalize_all rest (AList.update n t acc) = Inr norm"
    by (auto split: sum.splits)
  have "fst ` set (AList.update n t acc) = insert n (fst ` set acc)"
    using dom_update[of n t acc] by (simp add: dom_map_of_conv_image_fst)
  with "2.IH"[OF n r] n show ?case by auto
qed

lemma normalize_all_lookup:
  "normalize_all sv acc = Inr norm \<Longrightarrow>
   map_of norm n =
     (case map_of (rev (map (\<lambda>(s, t). (normalize_name s, t)) sv)) (Inr n) of
        Some t \<Rightarrow> Some t
      | None \<Rightarrow> map_of acc n)"
proof (induction sv acc rule: normalize_all.induct)
  case (1 norm')
  then show ?case by simp
next
  case (2 s t rest acc)
  from "2.prems" obtain m where m: "normalize_name s = Inr m"
    and r: "normalize_all rest (AList.update m t acc) = Inr norm"
    by (auto split: sum.splits)
  from "2.IH"[OF m r] m show ?case
    by (auto simp: update_conv' map_of_append map_add_def split: option.splits)
qed

lemma card_image_less:
  assumes "finite A" "x \<in> A" "y \<in> A" "x \<noteq> y" "f x = f y"
  shows "card (f ` A) < card A"
proof -
  have "\<not> inj_on f A" using assms by (auto simp: inj_on_def)
  then have "card (f ` A) \<noteq> card A" using eq_card_imp_inj_on[OF assms(1)] by blast
  with card_image_le[OF assms(1), of f] show ?thesis by simp
qed

lemma normalize_all_fewer:
  assumes "normalize_all sv [] = Inr norm"
    and "s1 \<in> fst ` set sv" "s2 \<in> fst ` set sv" "s1 \<noteq> s2"
    and "normalize_name s1 = normalize_name s2"
  shows "length norm < length sv"
proof -
  have d: "distinct (map fst norm)"
    using normalize_all_distinct[OF assms(1)] by simp
  have keys: "Inr ` fst ` set norm = normalize_name ` fst ` set sv"
    using normalize_all_keys[OF assms(1)] by simp
  have "length norm = card (fst ` set norm)"
    using distinct_card[OF d] by simp
  also have "\<dots> = card ((Inr :: string \<Rightarrow> exn + string) ` fst ` set norm)"
    by (simp add: card_image)
  also have "\<dots> = card (normalize_name ` fst ` set sv)"
    using keys by simp
  also have "\<dots> < card (fst ` set sv)"
    using assms(2-5) by (intro card_image_less[of _ s1 s2]) simp_all
  also have "\<dots> \<le> card (set sv)"
    by (rule card_image_le) simp
  also have "\<dots> \<le> length sv"
    by (rule card_length)
  finally show ?thesis .
qed

lemma normalize_all_last:
  assumes "normalize_all sv [] = Inr norm"
    and "sv = us @ (s, t) # zs"
    and "normalize_name s = Inr n"
    and "\<forall>(s', t') \<in> set zs. normalize_name s' \<noteq> Inr n"
  shows "map_of norm n = Some t"
proof -
  let ?g = "\<lambda>(s, t). (normalize_name s, t)"
  have "Inr n \<notin> fst ` set (rev (map ?g zs))"
    using assms(4) by force
  then have none: "map_of (rev (map ?g zs)) (Inr n) = None"
    using map_of_eq_None_iff[of "rev (map ?g zs)" "Inr n"] by blast
  have "rev (map ?g sv) = rev (map ?g zs) @ (Inr n, t) # rev (map ?g us)"
    using assms(2,3) by simp
  then have "map_of (rev (map ?g sv)) (Inr n) = Some t"
    using none by (simp add: map_of_append map_add_def)
  then show ?thesis
    using normalize_all_lookup[OF assms(1), of n] by simp
qed

text \<open>
  One iteration of the loop of \<open>analyze_project\<close>, by the services extracted from the
  file: with none the manifests and \<open>total_services\<close> stay as they are; otherwise the
  names are normalized, the map is stored under the key of the file, and
  \<open>total_services\<close> grows by the number of extracted services.
\<close>

lemma analyze_files_skip:
  assumes "raw_services env pid yf = []"
  shows "\<exists>st1. total_services st1 = total_services st \<and>
               (\<forall>rest ps. analyze_files env pid (yf # rest) ps st
                            = analyze_files env pid rest ps st1)"
proof (cases "file_content env pid (f_path yf)")
  case None
  then have "\<forall>rest ps. analyze_files env pid (yf # rest) ps st
             = analyze_files env pid rest ps (st\<lparr>errors := errors st + 1\<rparr>)"
    by simp
  then show ?thesis by (intro exI[of _ "st\<lparr>errors := errors st + 1\<rparr>"]) simp
next
  case (Some content)
  show ?thesis
  proof (cases "content = []")
    case True
    with Some have "\<forall>rest ps. analyze_files env pid (yf # rest) ps st
               = analyze_files env pid rest ps (st\<lparr>errors := errors st + 1\<rparr>)"
      by simp
    then show ?thesis by (intro exI[of _ "st\<lparr>errors := errors st + 1\<rparr>"]) simp
  next
    case False
    with Some assms have "find_services_in_yaml env content = []"
      by (simp add: raw_services_def)
    with Some False have "\<forall>rest ps. analyze_files env pid (yf # rest) ps st
               = analyze_files env pid rest ps st"
      by (simp add: Let_def)
    then show ?thesis by (intro exI[of _ st]) simp
  qed
qed

lemma analyze_files_match:
  assumes "raw_services env pid yf \<noteq> []"
  shows "analyze_files env pid (yf # rest) ps st =
           (case normalize_all (raw_services env pid yf) [] of
              Inl e \<Rightarrow> (st, Inl e)
            | Inr norm \<Rightarrow>
                analyze_files env pid rest (AList.update (manifest_key (f_name yf)) norm ps)
                  (st\<lparr>total_yaml_files := total_yaml_files st + 1,
                      total_services :=
                        total_services st + length (raw_services env pid yf)\<rparr>))"
proof -
  from assms obtain content where c: "file_content env pid (f_path yf) = Some content"
    and ne: "content \<noteq> []"
    and r: "raw_services env pid yf = find_services_in_yaml env content"
    by (auto simp: raw_services_def split: option.splits if_splits)
  from assms have f: "find_services_in_yaml env content \<noteq> []"
    unfolding r .
  show ?thesis
    unfolding r using c ne f by (simp add: Let_def)
qed

lemma analyze_files_total:
  "analyze_files env pid files ps st = (st', Inr ps') \<Longrightarrow>
   total_services st'
     = total_services st + sum_list (map (\<lambda>yf. length (raw_services env pid yf)) files)"
proof (induction files arbitrary: ps st)
  case Nil
  then show ?case by simp
next
  case (Cons yf rest)
  show ?case
  proof (cases "raw_services env pid yf = []")
    case True
    from analyze_files_skip[OF True, of st] obtain st1 where
      t: "total_services st1 = total_services st"
      and s: "analyze_files env pid (yf # rest) ps st = analyze_files env pid rest ps st1"
      by blast
    from Cons.prems s have "analyze_files env pid rest ps st1 = (st', Inr ps')" by simp
    from Cons.IH[OF this] t True show ?thesis by simp
  next
    case False
    let ?st = "st\<lparr>total_yaml_files := total_yaml_files st + 1,
                  total_services := total_services st + length (raw_services env pid yf)\<rparr>"
    from Cons.prems analyze_files_match[OF False, of rest ps st] obtain norm where
      "analyze_files env pid rest (AList.update (manifest_key (f_name yf)) norm ps) ?st
         = (st', Inr ps')"
      by (auto split: sum.splits)
    from Cons.IH[OF this] show ?thesis by simp
  qed
qed

lemma analyze_files_append:
  "analyze_files env pid (us @ vs) ps st =
     (case analyze_files env pid us ps st of
        (st1, Inl e) \<Rightarrow> (st1, Inl e)
      | (st1, Inr ps1) \<Rightarrow> analyze_files env pid vs ps1 st1)"
proof (induction us arbitrary: ps st)
  case Nil
  then show ?case by simp
next
  case (Cons yf rest)
  show ?case
  proof (cases "raw_services env pid yf = []")
    case True
    from analyze_files_skip[OF True, of st] obtain st1 where
      a: "\<forall>rest ps. analyze_files env pid (yf # rest) ps st
                     = analyze_files env pid rest ps st1"
      by blast
    from a have a1: "analyze_files env pid (yf # rest @ vs) ps st
                     = analyze_files env pid (rest @ vs) ps st1"
      by blast
    from a have a2: "analyze_files env pid (yf # rest) ps st
                     = analyze_files env pid rest ps st1"
      by blast
    show ?thesis
      unfolding append_Cons a1 a2 by (rule Cons.IH)
  next
    case False
    show ?thesis
      unfolding append_Cons analyze_files_match[OF False]
      by (simp add: Cons.IH split: sum.splits)
  qed
qed

lemma analyze_files_keeps:
  "analyze_files env pid vs ps st = (st', Inr ps') \<Longrightarrow>
   \<forall>g \<in> set vs. raw_services env pid g \<noteq> [] \<longrightarrow> manifest_key (f_name g) \<noteq> k \<Longrightarrow>
   map_of ps' k = map_of ps k"
proof (induction vs arbitrary: ps st)
  case Nil
  then show ?case by simp
next
  case (Cons yf rest)
  show ?case
  proof (cases "raw_services env pid yf = []")
    case True
    from analyze_files_skip[OF True, of st] obtain st1 where
      "analyze_files env pid (yf # rest) ps st = analyze_files env pid rest ps st1"
      by blast
    with Cons.prems(1) have "analyze_files env pid rest ps st1 = (st', Inr ps')" by simp
    from Cons.IH[OF this] Cons.prems(2) show ?thesis by simp
  next
    case False
    let ?st = "st\<lparr>total_yaml_files := total_yaml_files st + 1,
                  total_services := total_services st + length (raw_services env pid yf)\<rparr>"
    from Cons.prems(1) analyze_files_match[OF False, of rest ps st] obtain norm where
      r: "analyze_files env pid rest (AList.update (manifest_key (f_name yf)) norm ps) ?st
         = (st', Inr ps')"
      by (auto split: sum.splits)
    from Cons.prems(2) False have ne: "manifest_key (f_name yf) \<noteq> k" by simp
    from Cons.prems(2) have "\<forall>g \<in> set rest. raw_services env pid g \<noteq> [] \<longrightarrow>
                               manifest_key (f_name g) \<noteq> k"
      by simp
    from Cons.IH[OF r this] ne show ?thesis
      by (auto simp: update_conv')
  qed
qed

lemma analyze_files_stored:
  assumes "analyze_files env pid (us @ yf # vs) ps st = (st', Inr ps')"
    and "raw_services env pid yf \<noteq> []"
    and "\<forall>g \<in> set vs. raw_services env pid g \<noteq> [] \<longrightarrow>
           manifest_key (f_name g) \<noteq> manifest_key (f_name yf)"
  shows "\<exists>norm. normalize_all (raw_services env pid yf) [] = Inr norm \<and>
                map_of ps' (manifest_key (f_name yf)) = Some norm"
proof -
  from assms(1) obtain st1 ps1 where
    "analyze_files env pid (yf # vs) ps1 st1 = (st', Inr ps')"
    by (auto simp: analyze_files_append split: prod.splits sum.splits
        simp del: analyze_files.simps)
  then obtain norm st2 where n: "normalize_all (raw_services env pid yf) [] = Inr norm"
    and r: "analyze_files env pid vs (AList.update (manifest_key (f_name yf)) norm ps1) st2
              = (st', Inr ps')"
    using analyze_files_match[OF assms(2), of vs ps1 st1] by (auto split: sum.splits)
  from analyze_files_keeps[OF r assms(3)]
  have "map_of ps' (manifest_key (f_name yf)) = Some norm"
    by (simp add: update_conv')
  with n show ?thesis by blast
qed

text \<open>
  \<open>analyze_project\<close> is the loop on the candidates of the project, from no manifests;
  it returns the manifests when there are any.
\<close>

lemma analyze_project_files:
  assumes "analyze_project env project st = (st', Inr r)"
  shows "\<exists>st1 ps. analyze_files env (proj_id project) (candidates env project) [] st
                    = (st1, Inr ps) \<and>
                  total_services st' = total_services st1 \<and>
                  (ps \<noteq> [] \<longrightarrow> (\<exists>res. r = Some res \<and> res_services res = ps))"
proof (cases "candidates env project = []")
  case True
  then have "analyze_files env (proj_id project) (candidates env project) [] st = (st, Inr [])"
    by simp
  moreover from True assms have "st' = st"
    by (auto simp: analyze_project_def candidates_def Let_def split: if_splits)
  ultimately show ?thesis by simp
next
  case False
  then have f: "project_files env (proj_id project) \<noteq> []"
    by (auto simp: candidates_def)
  obtain st1 outcome where a:
    "analyze_files env (proj_id project) (candidates env project) [] st = (st1, outcome)"
    by (cases "analyze_files env (proj_id project) (candidates env project) [] st")
  from assms a f False obtain ps where ps: "outcome = Inr ps"
    by (cases outcome) (auto simp: analyze_project_def candidates_def Let_def)
  from assms a f False ps have "total_services st' = total_services st1"
    by (auto simp: analyze_project_def candidates_def Let_def split: if_splits)
  moreover from assms a f False ps
  have "ps \<noteq> [] \<longrightarrow> (\<exists>res. r = Some res \<and> res_services res = ps)"
    by (auto simp: analyze_project_def candidates_def Let_def)
  ultimately show ?thesis using a ps by simp
qed

text \<open>
  C10. When \<open>analyze_project\<close> returns, \<open>total_services\<close> has grown by the numbers of
  raw (extracted) service names of the candidate manifests. For a candidate with
  services whose key no later candidate with services has, the project is returned and
  holds under the key of the file the map of the normalized names; when two different
  raw names normalize to the same key, that map is shorter than the raw map, whose size
  was counted, and the key carries the tag of the last raw name that normalizes to it.
\<close>

theorem analyze_project_counts_raw_names:
  assumes "analyze_project env project st = (st', Inr r)"
  shows "total_services st' =
           total_services st +
           sum_list (map (\<lambda>yf. length (raw_services env (proj_id project) yf))
                       (candidates env project)) \<and>
         (\<forall>us yf vs.
            candidates env project = us @ yf # vs \<and>
            raw_services env (proj_id project) yf \<noteq> [] \<and>
            (\<forall>g \<in> set vs. raw_services env (proj_id project) g \<noteq> [] \<longrightarrow>
                           manifest_key (f_name g) \<noteq> manifest_key (f_name yf)) \<longrightarrow>
            (\<exists>res norm.
               r = Some res \<and>
               normalize_all (raw_services env (proj_id project) yf) [] = Inr norm \<and>
               map_of (res_services res) (manifest_key (f_name yf)) = Some norm \<and>
               Inr ` fst ` set norm
                 = normalize_name ` fst ` set (raw_services env (proj_id project) yf) \<and>
               (\<forall>xs s1 t1 ys s2 t2 zs n.
                  raw_services env (proj_id project) yf = xs @ (s1, t1) # ys @ (s2, t2) # zs \<and>
                  s1 \<noteq> s2 \<and> normalize_name s1 = Inr n \<and> normalize_name s2 = Inr n \<and>
                  (\<forall>(s, t) \<in> set zs. normalize_name s \<noteq> Inr n) \<longrightarrow>
                  length norm < length (raw_services env (proj_id project) yf) \<and>
                  map_of norm n = Some t2)))"
proof (intro conjI allI impI)
  from analyze_project_files[OF assms] obtain st1 ps where
    a: "analyze_files env (proj_id project) (candidates env project) [] st = (st1, Inr ps)"
    and t: "total_services st' = total_services st1"
    by blast
  from analyze_files_total[OF a] t
  show "total_services st' =
           total_services st +
           sum_list (map (\<lambda>yf. length (raw_services env (proj_id project) yf))
                       (candidates env project))"
    by simp
next
  fix us yf vs
  let ?raw = "raw_services env (proj_id project) yf"
  assume h: "candidates env project = us @ yf # vs \<and> ?raw \<noteq> [] \<and>
            (\<forall>g \<in> set vs. raw_services env (proj_id project) g \<noteq> [] \<longrightarrow>
                           manifest_key (f_name g) \<noteq> manifest_key (f_name yf))"
  from analyze_project_files[OF assms] obtain st1 ps where
    a: "analyze_files env (proj_id project) (candidates env project) [] st = (st1, Inr ps)"
    and r: "ps \<noteq> [] \<longrightarrow> (\<exists>res. r = Some res \<and> res_services res = ps)"
    by blast
  from a h have a': "analyze_files env (proj_id project) (us @ yf # vs) [] st = (st1, Inr ps)"
    by simp
  from h have h2: "?raw \<noteq> []"
    and h3: "\<forall>g \<in> set vs. raw_services env (proj_id project) g \<noteq> [] \<longrightarrow>
                           manifest_key (f_name g) \<noteq> manifest_key (f_name yf)"
    by blast+
  from analyze_files_stored[OF a' h2 h3] obtain norm where
    n: "normalize_all ?raw [] = Inr norm"
    and m: "map_of ps (manifest_key (f_name yf)) = Some norm"
    by blast
  from m have "ps \<noteq> []" by auto
  with r obtain res where res: "r = Some res" "res_services res = ps" by blast
  have keys: "Inr ` fst ` set norm = normalize_name ` fst ` set ?raw"
    using normalize_all_keys[OF n] by simp
  have coll: "length norm < length ?raw \<and> map_of norm k = Some t2"
    if c: "?raw = xs @ (s1, t1) # ys @ (s2, t2) # zs \<and> s1 \<noteq> s2 \<and>
           normalize_name s1 = Inr k \<and> normalize_name s2 = Inr k \<and>
           (\<forall>(s, t) \<in> set zs. normalize_name s \<noteq> Inr k)"
    for xs s1 t1 ys s2 t2 zs k
  proof
    from c have raw: "?raw = xs @ (s1, t1) # ys @ (s2, t2) # zs" by blast
    have "s1 \<in> fst ` set ?raw" "s2 \<in> fst ` set ?raw"
      unfolding raw by force+
    with c show "length norm < length ?raw"
      using normalize_all_fewer[OF n, of s1 s2] by simp
  next
    from c have "?raw = (xs @ (s1, t1) # ys) @ (s2, t2) # zs" by simp
    with c show "map_of norm k = Some t2"
      using normalize_all_last[OF n, of "xs @ (s1, t1) # ys" s2 t2 zs k] by blast
  qed
  show "\<exists>res norm.
               r = Some res \<and>
               normalize_all ?raw [] = Inr norm \<and>
               map_of (res_services res) (manifest_key (f_name yf)) = Some norm \<and>
               Inr ` fst ` set norm = normalize_name ` fst ` set ?raw \<and>
               (\<forall>xs s1 t1 ys s2 t2 zs n.
                  ?raw = xs @ (s1, t1) # ys @ (s2, t2) # zs \<and>
                  s1 \<noteq> s2 \<and> normalize_name s1 = Inr n \<and> normalize_name s2 = Inr n \<and>
                  (\<forall>(s, t) \<in> set zs. normalize_name s \<noteq> Inr n) \<longrightarrow>
                  length norm < length ?raw \<and> map_of norm n = Some t2)"
  proof (intro exI conjI allI impI)
    show "r = Some res" by (rule res(1))
    show "normalize_all ?raw [] = Inr norm" by (rule n)
    show "map_of (res_services res) (manifest_key (f_name yf)) = Some norm"
      using m res(2) by simp
    show "Inr ` fst ` set norm = normalize_name ` fst ` set ?raw" by (rule keys)
  next
    fix xs s1 t1 ys s2 t2 zs k
    assume "?raw = xs @ (s1, t1) # ys @ (s2, t2) # zs \<and>
           s1 \<noteq> s2 \<and> normalize_name s1 = Inr k \<and> normalize_name s2 = Inr k \<and>
           (\<forall>(s, t) \<in> set zs. normalize_name s \<noteq> Inr k)"
    from coll[OF this] show "length norm < length ?raw" by blast
  next
    fix xs s1 t1 ys s2 t2 zs k
    assume "?raw = xs @ (s1, t1) # ys @ (s2, t2) # zs \<and>
           s1 \<noteq> s2 \<and> normalize_name s1 = Inr k \<and> normalize_name s2 = Inr k \<and>
           (\<forall>(s, t) \<in> set zs. normalize_name s \<noteq> Inr k)"
    from coll[OF this] show "map_of norm k = Some t2" by blast
  qed
qed

theorem analyze_project_counts_raw_names_witness:
  "analyze_project (gitlab_of [(demo, [(''apps.yml'', twin_manifest)])]) demo
       (stats new_collector)
     = (\<lparr>total_projects = 0, projects_with_yaml = 1, total_yaml_files = 1, total_services = 2,
         errors = 0\<rparr>,
        Inr (Some \<lparr>res_project_id = 1, res_project_name = ''demo'',
                    res_services = [(''apps'', [(''web_app'', ''2'')])]\<rparr>)) \<and>
   sum_list (map (\<lambda>yf. length (raw_services
                   (gitlab_of [(demo, [(''apps.yml'', twin_manifest)])]) (proj_id demo) yf))
               (candidates (gitlab_of [(demo, [(''apps.yml'', twin_manifest)])]) demo)) = 2 \<and>
   raw_services (gitlab_of [(demo, [(''apps.yml'', twin_manifest)])]) (proj_id demo)
       (blob ''apps.yml'')
     = [(KStr ''web-app'', ''1''), (KStr ''web.app'', ''2'')] \<and>
   length [(''web_app'', ''2'')]
     < length (raw_services (gitlab_of [(demo, [(''apps.yml'', twin_manifest)])]) (proj_id demo)
         (blob ''apps.yml'')) \<and>
   map_of [(''web_app'', ''2'')] ''web_app'' = Some ''2''"
proof -
  let ?env = "gitlab_of [(demo, [(''apps.yml'', twin_manifest)])]"
  let ?st' = "\<lparr>total_projects = 0, projects_with_yaml = 1, total_yaml_files = 1,
               total_services = 2, errors = 0\<rparr>"
  let ?res = "\<lparr>res_project_id = 1, res_project_name = ''demo'',
               res_services = [(''apps'', [(''web_app'', ''2'')])]\<rparr>"
  let ?raw = "raw_services ?env (proj_id demo) (blob ''apps.yml'')"
  have h: "analyze_project ?env demo (stats new_collector) = (?st', Inr (Some ?res))"
    by (simp add: eval_defs twin_manifest_def)
  note t = analyze_project_counts_raw_names[OF h]
  from t have "total_services ?st' =
      total_services (stats new_collector) +
      sum_list (map (\<lambda>yf. length (raw_services ?env (proj_id demo) yf)) (candidates ?env demo))"
    by (rule conjunct1)
  then have total:
    "sum_list (map (\<lambda>yf. length (raw_services ?env (proj_id demo) yf)) (candidates ?env demo)) = 2"
    by (simp add: new_collector_def)
  have c: "candidates ?env demo = [] @ blob ''apps.yml'' # []"
    by (simp add: candidates_def eval_defs twin_manifest_def)
  have raw: "?raw = [(KStr ''web-app'', ''1''), (KStr ''web.app'', ''2'')]"
    by (simp add: raw_services_def eval_defs twin_manifest_def)
  have p: "candidates ?env demo = [] @ blob ''apps.yml'' # [] \<and> ?raw \<noteq> [] \<and>
           (\<forall>g \<in> set []. raw_services ?env (proj_id demo) g \<noteq> [] \<longrightarrow>
                          manifest_key (f_name g) \<noteq> manifest_key (f_name (blob ''apps.yml'')))"
    using c raw by simp
  from t[THEN conjunct2, rule_format, OF p] obtain res norm where
    found: "Some ?res = Some res \<and>
            normalize_all ?raw [] = Inr norm \<and>
            map_of (res_services res) (manifest_key (f_name (blob ''apps.yml''))) = Some norm \<and>
            Inr ` fst ` set norm = normalize_name ` fst ` set ?raw \<and>
            (\<forall>xs s1 t1 ys s2 t2 zs n.
               ?raw = xs @ (s1, t1) # ys @ (s2, t2) # zs \<and>
               s1 \<noteq> s2 \<and> normalize_name s1 = Inr n \<and> normalize_name s2 = Inr n \<and>
               (\<forall>(s, t) \<in> set zs. normalize_name s \<noteq> Inr n) \<longrightarrow>
               length norm < length ?raw \<and> map_of norm n = Some t2)"
    by (elim exE) (rule that)
  note r = found[THEN conjunct1]
  note m = found[THEN conjunct2, THEN conjunct2, THEN conjunct1]
  note coll = found[THEN conjunct2, THEN conjunct2, THEN conjunct2, THEN conjunct2]
  from r have res: "res = ?res" by simp
  have "manifest_key (f_name (blob ''apps.yml'')) = ''apps''"
    by (simp add: manifest_key_def startswith_def blob_def)
  with m res have norm: "norm = [(''web_app'', ''2'')]"
    by simp
  have n1: "normalize_name (KStr ''web-app'') = Inr ''web_app''"
    by (simp add: normalize_service_name_def replace_char_def startswith_def
        strip_underscores_def)
  have n2: "normalize_name (KStr ''web.app'') = Inr ''web_app''"
    by (simp add: normalize_service_name_def replace_char_def startswith_def
        strip_underscores_def)
  have q: "?raw = [] @ (KStr ''web-app'', ''1'') # [] @ (KStr ''web.app'', ''2'') # [] \<and>
      KStr ''web-app'' \<noteq> KStr ''web.app'' \<and>
      normalize_name (KStr ''web-app'') = Inr ''web_app'' \<and>
      normalize_name (KStr ''web.app'') = Inr ''web_app'' \<and>
      (\<forall>(s, t) \<in> set []. normalize_name s \<noteq> Inr ''web_app'')"
    using raw n1 n2 by simp
  have "length norm < length ?raw \<and> map_of norm ''web_app'' = Some ''2''"
    by (rule coll[rule_format, OF q])
  then have fewer: "length [(''web_app'', ''2'')] < length ?raw"
    and last: "map_of [(''web_app'', ''2'')] ''web_app'' = Some ''2''"
    unfolding norm by (rule conjunct1, rule conjunct2)
  from h total raw fewer last show ?thesis
    by (intro conjI)
qed

end
